theory Spec2Isabelle
  imports Main
begin

section \<open>Data model of \<^verbatim>\<open>frontend/src/App.js\<close>\<close>

text \<open>
  The component \<^verbatim>\<open>App\<close> keeps its state in eleven \<^verbatim>\<open>useState\<close> cells. The
  embedding keeps them in one record with the names of the source. The objects received
  from the backend are records of the fields the component reads.
\<close>

record article =
  article_id :: string
  title :: string
  summary :: string
  source_name :: string
  source_color :: string
  published_date :: string
  url :: string
  image_url :: "string option"
  tags :: "string list"

record source =
  key :: string
  name :: string
  color :: string
  article_count :: nat

record stats_data =
  total_articles :: nat
  recent_articles_24h :: nat

text \<open>\<^verbatim>\<open>response.data\<close> of \<^verbatim>\<open>GET /articles\<close>: the fields \<^verbatim>\<open>articles\<close> and \<^verbatim>\<open>total\<close>.\<close>

record page_data =
  data_articles :: "article list"
  data_total :: int

text \<open>
  A JavaScript value that can stand in the \<^verbatim>\<open>params\<close> object: a number (\<open>NaN\<close>
  apart) or a string. \<^verbatim>\<open>undefined\<close> is \<open>None\<close> of the option type.
\<close>

datatype js_value = Num int | NaN | Str string

type_synonym params = "(string \<times> js_value) list"

text \<open>
  The state cells, in the order of their \<^verbatim>\<open>useState\<close> calls, and the console, to which
  the \<^verbatim>\<open>catch\<close> blocks write. The page counter and the article count are JavaScript
  numbers; they are counted up from 1 and 0 by one, far below \<open>2^53\<close>, so the page is a
  natural number here.
\<close>

record app_state =
  articles :: "article list"
  loading :: bool
  refreshing :: bool
  searchTerm :: string
  selectedSource :: string
  selectedHours :: string
  sources :: "source list"
  stats :: "stats_data option"
  page :: nat
  totalArticles :: int
  hasMore :: bool
  console :: "string list"

definition initial_state :: app_state where
  "initial_state =
     \<lparr> articles = [], loading = True, refreshing = False, searchTerm = [],
       selectedSource = ''all'', selectedHours = ''24'', sources = [], stats = None,
       page = 1, totalArticles = 0, hasMore = True, console = [] \<rparr>"

text \<open>The settled state of an axios promise: rejected, or resolved with its data.\<close>

datatype 'a outcome = Rejected | Resolved 'a

section \<open>The query of \<^verbatim>\<open>fetchArticles\<close>\<close>

text \<open>
  \<^verbatim>\<open>parseInt(string)\<close> with no radix, as ECMAScript defines it: leading white space is
  dropped, then an optional sign, then an optional \<^verbatim>\<open>0x\<close> that selects radix 16, then the
  longest run of digits of the radix; no digit gives \<open>NaN\<close>. Characters are bytes here,
  so the white space is the ASCII white space. The result is kept exact (JavaScript
  rounds above \<open>2^53\<close>).
\<close>

definition isWhiteSpace :: "char \<Rightarrow> bool" where
  "isWhiteSpace c = (of_char c \<in> {9, 10, 11, 12, 13, 32 :: nat})"

definition digitValue :: "char \<Rightarrow> nat option" where
  "digitValue c =
     (let n = (of_char c :: nat) in
      if 48 \<le> n \<and> n \<le> 57 then Some (n - 48)
      else if 97 \<le> n \<and> n \<le> 122 then Some (n - 87)
      else if 65 \<le> n \<and> n \<le> 90 then Some (n - 55)
      else None)"

definition isDigitOf :: "nat \<Rightarrow> char \<Rightarrow> bool" where
  "isDigitOf radix c = (case digitValue c of Some d \<Rightarrow> d < radix | None \<Rightarrow> False)"

definition digitsValue :: "nat \<Rightarrow> string \<Rightarrow> nat" where
  "digitsValue radix ds =
     foldl (\<lambda>a c. case digitValue c of Some d \<Rightarrow> a * radix + d | None \<Rightarrow> a) 0 ds"

fun stripSign :: "string \<Rightarrow> int \<times> string" where
  "stripSign [] = (1, [])"
| "stripSign (c # cs) =
     (if c = CHR ''-'' then (- 1, cs) else if c = CHR ''+'' then (1, cs) else (1, c # cs))"

fun stripPrefix :: "string \<Rightarrow> nat \<times> string" where
  "stripPrefix (a # b # cs) =
     (if a = CHR ''0'' \<and> (b = CHR ''x'' \<or> b = CHR ''X'') then (16, cs) else (10, a # b # cs))"
| "stripPrefix cs = (10, cs)"

definition parseInt :: "string \<Rightarrow> js_value" where
  "parseInt str =
     (let (sign, s) = stripSign (dropWhile isWhiteSpace str);
          (radix, t) = stripPrefix s;
          ds = takeWhile (isDigitOf radix) t
      in if ds = [] then NaN else Num (sign * int (digitsValue radix ds)))"

text \<open>
  The object literal of lines 55 to 61, a field per line, \<^verbatim>\<open>undefined\<close> as \<open>None\<close>. The
  first argument is \<^verbatim>\<open>isNewSearch\<close>; the second is the render whose \<^verbatim>\<open>page\<close>,
  \<^verbatim>\<open>selectedHours\<close>, \<^verbatim>\<open>selectedSource\<close> and \<^verbatim>\<open>searchTerm\<close> the callback closed over.
  \<^verbatim>\<open>searchTerm || undefined\<close> is \<^verbatim>\<open>undefined\<close> for the one falsy string, the empty one.
\<close>

definition params_literal :: "bool \<Rightarrow> app_state \<Rightarrow> (string \<times> js_value option) list" where
  "params_literal isNewSearch cl =
     [ (''page'', Some (Num (if isNewSearch then 1 else int (page cl)))),
       (''per_page'', Some (Num 20)),
       (''hours'', if selectedHours cl = ''all'' then None
                   else Some (parseInt (selectedHours cl))),
       (''source'', if selectedSource cl = ''all'' then None
                    else Some (Str (selectedSource cl))),
       (''search'', if searchTerm cl = [] then None else Some (Str (searchTerm cl))) ]"

text \<open>Line 64: every key whose value is \<^verbatim>\<open>undefined\<close> is deleted.\<close>

fun remove_undefined :: "(string \<times> js_value option) list \<Rightarrow> params" where
  "remove_undefined [] = []"
| "remove_undefined ((k, None) # kvs) = remove_undefined kvs"
| "remove_undefined ((k, Some v) # kvs) = (k, v) # remove_undefined kvs"

definition build_params :: "bool \<Rightarrow> app_state \<Rightarrow> params" where
  "build_params isNewSearch cl = remove_undefined (params_literal isNewSearch cl)"

section \<open>\<^verbatim>\<open>fetchArticles\<close>\<close>

text \<open>
  \<^verbatim>\<open>fetchArticles\<close> is an async function with one \<^verbatim>\<open>await\<close>. The part before it runs
  when the function is called: it reads the render \<open>cl\<close> the callback closed over, writes
  to the current state \<open>s\<close>, and gives the query of the request. The part after it runs
  when the request settles, on the state of that moment.
\<close>

definition fetchArticles_begin :: "bool \<Rightarrow> app_state \<Rightarrow> app_state \<Rightarrow> app_state \<times> params" where
  "fetchArticles_begin isNewSearch cl s =
     ((if isNewSearch then s\<lparr>loading := True, page := 1\<rparr> else s),
      build_params isNewSearch cl)"

definition fetchArticles_settle :: "bool \<Rightarrow> page_data outcome \<Rightarrow> app_state \<Rightarrow> app_state" where
  "fetchArticles_settle isNewSearch r s =
     (case r of
        Resolved d \<Rightarrow>
          s\<lparr> articles := (if isNewSearch then data_articles d
                           else articles s @ data_articles d),
             totalArticles := data_total d,
             hasMore := (length (data_articles d) = 20),
             loading := False \<rparr>
      | Rejected \<Rightarrow>
          s\<lparr> console := console s @ [''Error fetching articles:''],
             loading := False \<rparr>)"

section \<open>\<^verbatim>\<open>fetchSources\<close>, \<^verbatim>\<open>fetchStats\<close>, \<^verbatim>\<open>loadMore\<close>\<close>

text \<open>Both fetchers send a request with no parameter; only the part after the \<^verbatim>\<open>await\<close>
  touches the state.\<close>

definition fetchSources_settle :: "source list outcome \<Rightarrow> app_state \<Rightarrow> app_state" where
  "fetchSources_settle r s =
     (case r of
        Resolved d \<Rightarrow> s\<lparr>sources := d\<rparr>
      | Rejected \<Rightarrow> s\<lparr>console := console s @ [''Error fetching sources:'']\<rparr>)"

definition fetchStats_settle :: "stats_data outcome \<Rightarrow> app_state \<Rightarrow> app_state" where
  "fetchStats_settle r s =
     (case r of
        Resolved d \<Rightarrow> s\<lparr>stats := Some d\<rparr>
      | Rejected \<Rightarrow> s\<lparr>console := console s @ [''Error fetching stats:'']\<rparr>)"

text \<open>
  \<^verbatim>\<open>loadMore\<close> tests \<^verbatim>\<open>hasMore\<close> and \<^verbatim>\<open>loading\<close> of the render \<open>cl\<close> it closed over and
  updates the page of the current state with \<^verbatim>\<open>prev => prev + 1\<close>.
\<close>

definition loadMore :: "app_state \<Rightarrow> app_state \<Rightarrow> app_state" where
  "loadMore cl s = (if hasMore cl \<and> \<not> loading cl then s\<lparr>page := page s + 1\<rparr> else s)"

text \<open>What the render shows of the two buttons: \<^verbatim>\<open>disabled={refreshing}\<close> (line 191) and
  the conditions around the button of \<^verbatim>\<open>loadMore\<close> (lines 270 and 365).\<close>

definition refresh_disabled :: "app_state \<Rightarrow> bool" where
  "refresh_disabled s = refreshing s"

definition loadMore_shown :: "app_state \<Rightarrow> bool" where
  "loadMore_shown s =
     (\<not> (loading s \<and> page s = 1) \<and> hasMore s \<and> \<not> loading s \<and> length (articles s) > 0)"

text \<open>The items of the two selects: the hours of lines 256 to 261, and \<^verbatim>\<open>all\<close> with
  the keys of the sources received (lines 231 to 233).\<close>

definition hours_options :: "string list" where
  "hours_options = [''1'', ''6'', ''24'', ''72'', ''168'', ''all'']"

definition source_options :: "app_state \<Rightarrow> string list" where
  "source_options s = ''all'' # map key (sources s)"

section \<open>The component at run time\<close>

text \<open>
  Around the state, the run of the component has the requests that are in flight, each
  with what awaits it, the requests sent so far in order, and the intervals of the
  browser. \<open>interval\<close> is the identifier that the cleanup of the interval effect will
  clear (the constant \<^verbatim>\<open>interval\<close> of line 147).
\<close>

datatype request = GetSources | GetStats | GetArticles params | PostRefresh

datatype caller = Direct | FromRefresh

datatype pending =
    AwaitSources
  | AwaitStats caller
  | AwaitArticles bool caller
  | AwaitRefresh app_state

datatype phase = Fresh | Live | Torn

record world =
  st :: app_state
  phase :: phase
  inflight :: "(request \<times> pending) list"
  sent :: "request list"
  timers :: "(nat \<times> nat \<times> app_state) list"
  interval :: "nat option"
  next_timer :: nat

definition world0 :: world where
  "world0 = \<lparr> st = initial_state, phase = Fresh, inflight = [], sent = [],
               timers = [], interval = None, next_timer = 0 \<rparr>"

definition send :: "request \<Rightarrow> pending \<Rightarrow> world \<Rightarrow> world" where
  "send rq k w = w\<lparr>inflight := inflight w @ [(rq, k)], sent := sent w @ [rq]\<rparr>"

definition call_fetchSources :: "world \<Rightarrow> world" where
  "call_fetchSources w = send GetSources AwaitSources w"

definition call_fetchStats :: "caller \<Rightarrow> world \<Rightarrow> world" where
  "call_fetchStats c w = send GetStats (AwaitStats c) w"

definition call_fetchArticles :: "bool \<Rightarrow> caller \<Rightarrow> app_state \<Rightarrow> world \<Rightarrow> world" where
  "call_fetchArticles isNewSearch c cl w =
     (let (s', ps) = fetchArticles_begin isNewSearch cl (st w)
      in send (GetArticles ps) (AwaitArticles isNewSearch c) (w\<lparr>st := s'\<rparr>))"

subsection \<open>The four effects\<close>

text \<open>Each effect reads the render \<open>cl\<close> in which it was created.\<close>

definition initial_load_effect :: "app_state \<Rightarrow> world \<Rightarrow> world" where
  "initial_load_effect cl w =
     call_fetchArticles True Direct cl (call_fetchStats Direct (call_fetchSources w))"

definition filter_effect :: "app_state \<Rightarrow> world \<Rightarrow> world" where
  "filter_effect cl w = (if \<not> loading cl then call_fetchArticles True Direct cl w else w)"

definition page_effect :: "app_state \<Rightarrow> world \<Rightarrow> world" where
  "page_effect cl w = (if page cl > 1 then call_fetchArticles False Direct cl w else w)"

definition POLL_MS :: nat where
  "POLL_MS = 5 * 60 * 1000"

definition setInterval :: "nat \<Rightarrow> app_state \<Rightarrow> world \<Rightarrow> world" where
  "setInterval ms cl w =
     w\<lparr> timers := timers w @ [(next_timer w, ms, cl)],
        interval := Some (next_timer w),
        next_timer := Suc (next_timer w) \<rparr>"

definition clearInterval :: "nat \<Rightarrow> world \<Rightarrow> world" where
  "clearInterval i w = w\<lparr>timers := filter (\<lambda>t. fst t \<noteq> i) (timers w)\<rparr>"

definition interval_effect :: "app_state \<Rightarrow> world \<Rightarrow> world" where
  "interval_effect cl w = setInterval POLL_MS cl w"

definition interval_cleanup :: "world \<Rightarrow> world" where
  "interval_cleanup w =
     (case interval w of None \<Rightarrow> w | Some i \<Rightarrow> clearInterval i (w\<lparr>interval := None\<rparr>))"

text \<open>The callback of the interval (lines 148 to 151), on the render it closed over.\<close>

definition tick :: "app_state \<Rightarrow> world \<Rightarrow> world" where
  "tick cl w =
     (let w1 = call_fetchStats Direct w
      in if page cl = 1 then call_fetchArticles True Direct cl w1 else w1)"

subsection \<open>Rendering\<close>

text \<open>
  \<^verbatim>\<open>fetchArticles\<close> is a new function when one of its dependencies (line 81) changed.
  After a render, React runs the effects whose dependencies differ from those of the
  render before \<open>prev\<close>, in the order of the source, the cleanup of an effect before the
  effect. The effect of the first load depends on two callbacks that never change, so
  it runs at mount only.
\<close>

definition fetchArticles_deps :: "app_state \<Rightarrow> nat \<times> string \<times> string \<times> string" where
  "fetchArticles_deps cl = (page cl, searchTerm cl, selectedSource cl, selectedHours cl)"

definition commit :: "app_state \<Rightarrow> world \<Rightarrow> world" where
  "commit prev w =
     (let cl = st w;
          w1 = (if (selectedSource cl, selectedHours cl)
                     \<noteq> (selectedSource prev, selectedHours prev)
                then filter_effect cl w else w);
          w2 = (if (page cl, fetchArticles_deps cl) \<noteq> (page prev, fetchArticles_deps prev)
                then page_effect cl w1 else w1)
      in if page cl \<noteq> page prev then interval_effect cl (interval_cleanup w2) else w2)"

text \<open>
  An effect that sets state causes one more render. The effects set \<^verbatim>\<open>loading\<close> and
  \<^verbatim>\<open>page\<close> only, so the second render can restart the interval and nothing else, and a
  third one finds no dependency changed (lemma \<open>rerender_settled\<close>).
\<close>

definition rerender :: "app_state \<Rightarrow> world \<Rightarrow> world" where
  "rerender prev w = commit (st w) (commit prev w)"

definition mount :: "world \<Rightarrow> world" where
  "mount w =
     (let cl = st w
      in rerender cl
           (interval_effect cl (page_effect cl (filter_effect cl (initial_load_effect cl w)))))"

subsection \<open>Handlers and continuations\<close>

definition upd :: "(app_state \<Rightarrow> app_state) \<Rightarrow> world \<Rightarrow> world" where
  "upd f w = w\<lparr>st := f (st w)\<rparr>"

definition handleSearch :: "world \<Rightarrow> world" where
  "handleSearch w = call_fetchArticles True Direct (st w) w"

text \<open>
  \<^verbatim>\<open>handleRefresh\<close> up to its first \<^verbatim>\<open>await\<close>. The rest of it runs when the awaited
  promises settle: see \<open>resume\<close>. It calls the \<^verbatim>\<open>fetchArticles\<close> of the render of the
  click.
\<close>

definition handleRefresh :: "world \<Rightarrow> world" where
  "handleRefresh w =
     send PostRefresh (AwaitRefresh (st w)) (upd (\<lambda>s. s\<lparr>refreshing := True\<rparr>) w)"

datatype response =
    Failed
  | SourcesOk "source list"
  | StatsOk stats_data
  | ArticlesOk page_data
  | RefreshOk

definition finish_refresh :: "caller \<Rightarrow> world \<Rightarrow> world" where
  "finish_refresh c w =
     (case c of Direct \<Rightarrow> w | FromRefresh \<Rightarrow> upd (\<lambda>s. s\<lparr>refreshing := False\<rparr>) w)"

definition after_articles :: "caller \<Rightarrow> world \<Rightarrow> world" where
  "after_articles c w = (case c of Direct \<Rightarrow> w | FromRefresh \<Rightarrow> call_fetchStats FromRefresh w)"

text \<open>
  What runs when a request settles. \<^verbatim>\<open>fetchArticles\<close> and \<^verbatim>\<open>fetchStats\<close> catch their own
  failures, so inside \<^verbatim>\<open>handleRefresh\<close> only the \<^verbatim>\<open>POST\<close> can reach the \<^verbatim>\<open>catch\<close> of
  line 90. A response of the wrong kind for the request is outside the model.
\<close>

fun resume :: "pending \<Rightarrow> response \<Rightarrow> world \<Rightarrow> world option" where
  "resume AwaitSources Failed w = Some (upd (fetchSources_settle Rejected) w)"
| "resume AwaitSources (SourcesOk d) w = Some (upd (fetchSources_settle (Resolved d)) w)"
| "resume (AwaitStats c) Failed w =
     Some (finish_refresh c (upd (fetchStats_settle Rejected) w))"
| "resume (AwaitStats c) (StatsOk d) w =
     Some (finish_refresh c (upd (fetchStats_settle (Resolved d)) w))"
| "resume (AwaitArticles isNewSearch c) Failed w =
     Some (after_articles c (upd (fetchArticles_settle isNewSearch Rejected) w))"
| "resume (AwaitArticles isNewSearch c) (ArticlesOk d) w =
     Some (after_articles c (upd (fetchArticles_settle isNewSearch (Resolved d)) w))"
| "resume (AwaitRefresh cl) Failed w =
     Some (upd (\<lambda>s. s\<lparr>console := console s @ [''Error refreshing:''],
                      refreshing := False\<rparr>) w)"
| "resume (AwaitRefresh cl) RefreshOk w =
     Some (call_fetchArticles True FromRefresh cl w)"
| "resume _ _ w = None"

subsection \<open>Events\<close>

datatype event =
    Mount
  | Unmount
  | SelectSource string
  | SelectHours string
  | TypeSearch string
  | SubmitSearch
  | ClickLoadMore
  | ClickRefresh
  | Tick nat
  | Respond nat response

definition remove_nth :: "nat \<Rightarrow> 'a list \<Rightarrow> 'a list" where
  "remove_nth i xs = take i xs @ drop (Suc i) xs"

text \<open>A handler runs on the current render; then React renders again.\<close>

definition handle :: "(world \<Rightarrow> world) \<Rightarrow> world \<Rightarrow> world" where
  "handle h w = rerender (st w) (h w)"

text \<open>
  One event of the run, \<open>None\<close> when the event cannot happen: the component is not
  mounted, the control is not shown or is disabled, the value is not an item of the
  select, the interval is not live, or no such request is in flight.
\<close>

fun step :: "event \<Rightarrow> world \<Rightarrow> world option" where
  "step Mount w = (if phase w = Fresh then Some (mount (w\<lparr>phase := Live\<rparr>)) else None)"
| "step Unmount w =
     (if phase w = Live then Some (interval_cleanup (w\<lparr>phase := Torn\<rparr>)) else None)"
| "step (SelectSource v) w =
     (if phase w = Live \<and> v \<in> set (source_options (st w))
      then Some (handle (upd (\<lambda>s. s\<lparr>selectedSource := v\<rparr>)) w) else None)"
| "step (SelectHours v) w =
     (if phase w = Live \<and> v \<in> set hours_options
      then Some (handle (upd (\<lambda>s. s\<lparr>selectedHours := v\<rparr>)) w) else None)"
| "step (TypeSearch v) w =
     (if phase w = Live then Some (handle (upd (\<lambda>s. s\<lparr>searchTerm := v\<rparr>)) w) else None)"
| "step SubmitSearch w = (if phase w = Live then Some (handle handleSearch w) else None)"
| "step ClickLoadMore w =
     (if phase w = Live \<and> loadMore_shown (st w)
      then Some (handle (upd (loadMore (st w))) w) else None)"
| "step ClickRefresh w =
     (if phase w = Live \<and> \<not> refresh_disabled (st w)
      then Some (handle handleRefresh w) else None)"
| "step (Tick i) w =
     (case map_of (timers w) i of
        None \<Rightarrow> None
      | Some (ms, cl) \<Rightarrow> Some (handle (tick cl) w))"
| "step (Respond i r) w =
     (if phase w = Live \<and> i < length (inflight w)
      then (case resume (snd (inflight w ! i)) r (w\<lparr>inflight := remove_nth i (inflight w)\<rparr>) of
              None \<Rightarrow> None
            | Some w' \<Rightarrow> Some (rerender (st w) w'))
      else None)"

text \<open>
  The setters that the two selects call with the chosen item (\<^verbatim>\<open>onValueChange\<close>, lines
  225 and 250): an event of a select changes the filter when this is not the state it
  had.
\<close>

fun set_filter :: "event \<Rightarrow> app_state \<Rightarrow> app_state" where
  "set_filter (SelectSource v) s = s\<lparr>selectedSource := v\<rparr>"
| "set_filter (SelectHours v) s = s\<lparr>selectedHours := v\<rparr>"
| "set_filter e s = s"

fun run :: "event list \<Rightarrow> world \<Rightarrow> world option" where
  "run [] w = Some w"
| "run (e # es) w = (case step e w of None \<Rightarrow> None | Some w' \<Rightarrow> run es w')"

text \<open>The requests that an event sends, in order.\<close>

definition issued :: "event \<Rightarrow> world \<Rightarrow> request list" where
  "issued e w =
     (case step e w of None \<Rightarrow> [] | Some w' \<Rightarrow> drop (length (sent w)) (sent w'))"

text \<open>
  The state of the polling interval. \<open>live_timer w p\<close>: exactly one interval is live, its
  period is \<open>POLL_MS\<close>, its callback was made in a render of page \<open>p\<close>, and it is the one
  that the cleanup of the effect will clear. \<open>timer_ok\<close>: that holds of the current page
  while the component is mounted, and no interval is live before and after.
\<close>

definition live_timer :: "world \<Rightarrow> nat \<Rightarrow> bool" where
  "live_timer w p =
     (case timers w of
        [(i, ms, cl)] \<Rightarrow> ms = POLL_MS \<and> interval w = Some i \<and> page cl = p
      | _ \<Rightarrow> False)"

definition timer_ok :: "world \<Rightarrow> bool" where
  "timer_ok w = (case phase w of Live \<Rightarrow> live_timer w (page (st w)) | _ \<Rightarrow> timers w = [])"

text \<open>
  The steps of a manual refresh. \<open>refresh_step\<close>: the awaited promise is one that
  \<^verbatim>\<open>handleRefresh\<close> awaits (lines 87 to 89). \<open>refresh_pending\<close>: those in flight.
  \<open>refresh_ok\<close>: \<^verbatim>\<open>refreshing\<close> is true exactly when one of them is in flight, there is at
  most one, and the articles fetch of a refresh is a replace-fetch.
\<close>

fun refresh_step :: "pending \<Rightarrow> bool" where
  "refresh_step (AwaitRefresh cl) = True"
| "refresh_step (AwaitArticles b FromRefresh) = True"
| "refresh_step (AwaitStats FromRefresh) = True"
| "refresh_step k = False"

definition refresh_pending :: "world \<Rightarrow> pending list" where
  "refresh_pending w = filter refresh_step (map snd (inflight w))"

definition refresh_ok :: "world \<Rightarrow> bool" where
  "refresh_ok w =
     (case refresh_pending w of
        [] \<Rightarrow> \<not> refreshing (st w)
      | [k] \<Rightarrow> refreshing (st w) \<and> k \<noteq> AwaitArticles False FromRefresh
      | _ \<Rightarrow> False)"

section \<open>A session of the component\<close>

text \<open>
  The scenario of the specification: the component mounts; the sources, the stats and a
  first page of 20 articles (of 57) arrive; the user asks for more and a second page of
  20 arrives. The articles of a page are 20 copies of one article, so that what is said
  of these worlds holds with duplicate identifiers.
\<close>

definition sample_article :: article where
  "sample_article =
     \<lparr> article_id = ''a1'', title = ''T'', summary = ''S'', source_name = ''Hacker News'',
       source_color = ''#ff6600'', published_date = ''2025-01-01T00:00:00'',
       url = ''https://example.org/a1'', image_url = None, tags = [''ai''] \<rparr>"

definition sample_source :: source where
  "sample_source =
     \<lparr> key = ''hackernews'', name = ''Hacker News'', color = ''#ff6600'', article_count = 57 \<rparr>"

definition page_of :: "nat \<Rightarrow> page_data" where
  "page_of n = \<lparr> data_articles = replicate n sample_article, data_total = 57 \<rparr>"

definition sample_stats :: stats_data where
  "sample_stats = \<lparr> total_articles = 57, recent_articles_24h = 20 \<rparr>"

definition query_page :: "int \<Rightarrow> params" where
  "query_page n = [(''page'', Num n), (''per_page'', Num 20), (''hours'', Num 24)]"

text \<open>After \<open>Mount\<close>: three requests in flight, the first interval live.\<close>

definition world_mounted :: world where
  "world_mounted =
     \<lparr> st = initial_state, phase = Live,
       inflight = [(GetSources, AwaitSources), (GetStats, AwaitStats Direct),
                   (GetArticles (query_page 1), AwaitArticles True Direct)],
       sent = [GetSources, GetStats, GetArticles (query_page 1)],
       timers = [(0, POLL_MS, initial_state)], interval = Some 0, next_timer = 1 \<rparr>"

text \<open>After the three responses: 20 articles shown, nothing in flight.\<close>

definition state_page1 :: app_state where
  "state_page1 =
     initial_state\<lparr> articles := replicate 20 sample_article, loading := False,
                    sources := [sample_source], stats := Some sample_stats,
                    totalArticles := 57 \<rparr>"

definition world_page1 :: world where
  "world_page1 = world_mounted\<lparr> st := state_page1, inflight := [] \<rparr>"

text \<open>After a click on the button of \<^verbatim>\<open>loadMore\<close>: page 2 requested, not yet arrived.\<close>

definition world_page2_pending :: world where
  "world_page2_pending =
     \<lparr> st = state_page1\<lparr>page := 2\<rparr>, phase = Live,
       inflight = [(GetArticles (query_page 2), AwaitArticles False Direct)],
       sent = [GetSources, GetStats, GetArticles (query_page 1), GetArticles (query_page 2)],
       timers = [(1, POLL_MS, state_page1\<lparr>page := 2\<rparr>)], interval = Some 1,
       next_timer = 2 \<rparr>"

text \<open>After the second page arrived: 40 articles shown.\<close>

definition world_page2 :: world where
  "world_page2 =
     world_page2_pending\<lparr> st := state_page1\<lparr>page := 2, articles := replicate 40 sample_article\<rparr>,
                          inflight := [] \<rparr>"

section \<open>Facts about the model\<close>

subsection \<open>What each call leaves in the world\<close>

lemma send_simps [simp]:
  "st (send rq k w) = st w" "phase (send rq k w) = phase w"
  "inflight (send rq k w) = inflight w @ [(rq, k)]" "sent (send rq k w) = sent w @ [rq]"
  "timers (send rq k w) = timers w" "interval (send rq k w) = interval w"
  "next_timer (send rq k w) = next_timer w"
  by (simp_all add: send_def)

lemma call_fetchArticles_simps [simp]:
  "st (call_fetchArticles b c cl w) = (if b then (st w)\<lparr>loading := True, page := 1\<rparr> else st w)"
  "phase (call_fetchArticles b c cl w) = phase w"
  "inflight (call_fetchArticles b c cl w) = inflight w @ [(GetArticles (build_params b cl), AwaitArticles b c)]"
  "sent (call_fetchArticles b c cl w) = sent w @ [GetArticles (build_params b cl)]"
  "timers (call_fetchArticles b c cl w) = timers w"
  "interval (call_fetchArticles b c cl w) = interval w"
  "next_timer (call_fetchArticles b c cl w) = next_timer w"
  by (simp_all add: call_fetchArticles_def fetchArticles_begin_def)

lemma call_fetchStats_simps [simp]:
  "st (call_fetchStats c w) = st w" "phase (call_fetchStats c w) = phase w"
  "inflight (call_fetchStats c w) = inflight w @ [(GetStats, AwaitStats c)]"
  "sent (call_fetchStats c w) = sent w @ [GetStats]"
  "timers (call_fetchStats c w) = timers w" "interval (call_fetchStats c w) = interval w"
  "next_timer (call_fetchStats c w) = next_timer w"
  by (simp_all add: call_fetchStats_def)

lemma restart_simps [simp]:
  "st (interval_effect cl (interval_cleanup w)) = st w"
  "phase (interval_effect cl (interval_cleanup w)) = phase w"
  "inflight (interval_effect cl (interval_cleanup w)) = inflight w"
  "sent (interval_effect cl (interval_cleanup w)) = sent w"
  by (simp_all add: interval_effect_def interval_cleanup_def setInterval_def clearInterval_def
      split: option.splits)

subsection \<open>What a render leaves in the world\<close>

lemma st_commit:
  "st (commit prev w) =
     (if (selectedSource (st w) \<noteq> selectedSource prev \<or> selectedHours (st w) \<noteq> selectedHours prev)
          \<and> \<not> loading (st w)
      then (st w)\<lparr>loading := True, page := 1\<rparr> else st w)"
  by (simp add: commit_def Let_def filter_effect_def page_effect_def)


lemma sent_commit:
  "sent (commit prev w) =
     sent w
     @ (if (selectedSource (st w) \<noteq> selectedSource prev \<or> selectedHours (st w) \<noteq> selectedHours prev)
            \<and> \<not> loading (st w)
        then [GetArticles (build_params True (st w))] else [])
     @ (if fetchArticles_deps (st w) \<noteq> fetchArticles_deps prev \<and> page (st w) > 1
        then [GetArticles (build_params False (st w))] else [])"
  by (simp add: commit_def Let_def filter_effect_def page_effect_def fetchArticles_deps_def)

lemma inflight_commit:
  "inflight (commit prev w) =
     inflight w
     @ (if (selectedSource (st w) \<noteq> selectedSource prev \<or> selectedHours (st w) \<noteq> selectedHours prev)
            \<and> \<not> loading (st w)
        then [(GetArticles (build_params True (st w)), AwaitArticles True Direct)] else [])
     @ (if fetchArticles_deps (st w) \<noteq> fetchArticles_deps prev \<and> page (st w) > 1
        then [(GetArticles (build_params False (st w)), AwaitArticles False Direct)] else [])"
  by (simp add: commit_def Let_def filter_effect_def page_effect_def fetchArticles_deps_def)

lemma phase_commit [simp]: "phase (commit prev w) = phase w"
  by (simp add: commit_def Let_def filter_effect_def page_effect_def)

lemma st_rerender:
  "st (rerender prev w) =
     (if (selectedSource (st w) \<noteq> selectedSource prev \<or> selectedHours (st w) \<noteq> selectedHours prev)
          \<and> \<not> loading (st w)
      then (st w)\<lparr>loading := True, page := 1\<rparr> else st w)"
  by (simp add: rerender_def st_commit)

lemma sent_rerender: "sent (rerender prev w) = sent (commit prev w)"
  by (simp add: rerender_def sent_commit [of "st w"] st_commit fetchArticles_deps_def)

lemma inflight_rerender: "inflight (rerender prev w) = inflight (commit prev w)"
  by (simp add: rerender_def inflight_commit [of "st w"] st_commit fetchArticles_deps_def)

lemma phase_rerender [simp]: "phase (rerender prev w) = phase w"
  by (simp add: rerender_def)


lemma commit_same:
  "fetchArticles_deps (st w) = fetchArticles_deps prev \<Longrightarrow> commit prev w = w"
  by (simp add: commit_def Let_def fetchArticles_deps_def)

lemma rerender_same:
  "fetchArticles_deps (st w) = fetchArticles_deps prev \<Longrightarrow> rerender prev w = w"
  by (simp add: rerender_def commit_same)

lemma upd_simps [simp]:
  "st (upd f w) = f (st w)" "phase (upd f w) = phase w" "inflight (upd f w) = inflight w"
  "sent (upd f w) = sent w" "timers (upd f w) = timers w" "interval (upd f w) = interval w"
  "next_timer (upd f w) = next_timer w"
  by (simp_all add: upd_def)

lemma after_articles_simps [simp]:
  "st (after_articles c w) = st w" "phase (after_articles c w) = phase w"
  "timers (after_articles c w) = timers w" "interval (after_articles c w) = interval w"
  "next_timer (after_articles c w) = next_timer w"
  by (simp_all add: after_articles_def split: caller.splits)

lemma fetchArticles_settle_deps [simp]:
  "fetchArticles_deps (fetchArticles_settle b r s) = fetchArticles_deps s"
  by (simp add: fetchArticles_settle_def fetchArticles_deps_def split: outcome.splits)

lemma resume_articles_ok:
  "resume k (ArticlesOk d) w = Some w' \<Longrightarrow>
     \<exists>b c. k = AwaitArticles b c \<and>
       w' = after_articles c (upd (fetchArticles_settle b (Resolved d)) w)"
  by (cases k) auto

subsection \<open>The session, event by event\<close>

lemma initial_state_simps [simp]:
  "articles initial_state = []" "loading initial_state" "\<not> refreshing initial_state"
  "searchTerm initial_state = []" "selectedSource initial_state = ''all''"
  "selectedHours initial_state = ''24''" "sources initial_state = []"
  "stats initial_state = None" "page initial_state = 1" "totalArticles initial_state = 0"
  "hasMore initial_state" "console initial_state = []"
  by (simp_all add: initial_state_def)

lemma parseInt_options:
  "parseInt ''1'' = Num 1" "parseInt ''6'' = Num 6" "parseInt ''24'' = Num 24"
  "parseInt ''72'' = Num 72" "parseInt ''168'' = Num 168"
  by (simp_all add: parseInt_def isWhiteSpace_def isDigitOf_def digitValue_def digitsValue_def Let_def)

lemma query_initial: "build_params True initial_state = query_page 1"
  by (simp add: build_params_def params_literal_def query_page_def parseInt_options)


lemma state_page1_simps [simp]:
  "articles state_page1 = replicate 20 sample_article" "\<not> loading state_page1"
  "\<not> refreshing state_page1"
  "searchTerm state_page1 = []" "selectedSource state_page1 = ''all''"
  "selectedHours state_page1 = ''24''" "sources state_page1 = [sample_source]"
  "stats state_page1 = Some sample_stats" "page state_page1 = 1"
  "totalArticles state_page1 = 57"
  "hasMore state_page1" "console state_page1 = []"
  by (simp_all add: state_page1_def)

lemma build_params_page_irrelevant [simp]:
  "build_params True (s\<lparr>page := p\<rparr>) = build_params True s"
  "build_params b (s\<lparr>loading := l\<rparr>) = build_params b s"
  by (simp_all add: build_params_def params_literal_def)

lemma query_page1: "build_params b state_page1 = query_page 1"
  by (simp add: build_params_def params_literal_def query_page_def parseInt_options)

lemma query_pageN: "build_params False (state_page1\<lparr>page := p\<rparr>) = query_page (int p)"
  by (simp add: build_params_def params_literal_def query_page_def parseInt_options)

lemmas eval_defs = remove_nth_def upd_def handle_def rerender_def commit_def Let_def
  fetchArticles_deps_def filter_effect_def page_effect_def interval_effect_def
  interval_cleanup_def setInterval_def clearInterval_def
  call_fetchArticles_def fetchArticles_begin_def call_fetchStats_def call_fetchSources_def
  send_def after_articles_def finish_refresh_def
  fetchSources_settle_def fetchStats_settle_def fetchArticles_settle_def
  loadMore_def loadMore_shown_def refresh_disabled_def handleSearch_def handleRefresh_def tick_def

lemma reach_mounted: "step Mount world0 = Some world_mounted"
  by (simp add: world0_def world_mounted_def mount_def initial_load_effect_def eval_defs query_initial)

lemma reach_page1:
  "run [Respond 0 (SourcesOk [sample_source]), Respond 0 (StatsOk sample_stats),
        Respond 0 (ArticlesOk (page_of 20))] world_mounted = Some world_page1"
  by (simp add: world_mounted_def world_page1_def state_page1_def page_of_def eval_defs)

lemma reach_page2_pending: "step ClickLoadMore world_page1 = Some world_page2_pending"
  by (simp add: world_mounted_def world_page1_def world_page2_pending_def eval_defs query_pageN)

lemma reach_page2:
  "step (Respond 0 (ArticlesOk (page_of 20))) world_page2_pending = Some world_page2"
  by (simp add: world_page2_pending_def world_page2_def page_of_def eval_defs
      replicate_add [symmetric])

subsection \<open>The events of the claims\<close>

lemma nth_remove_nth_self [simp]: "remove_nth (length xs) (xs @ [x]) = xs"
  by (simp add: remove_nth_def)

lemma map_of_page_new [simp]: "map_of (build_params True cl) ''page'' = Some (Num 1)"
  by (simp add: build_params_def params_literal_def)

lemma map_of_page_more [simp]:
  "map_of (build_params False cl) ''page'' = Some (Num (int (page cl)))"
  by (simp add: build_params_def params_literal_def)

lemma step_Respond_articles:
  assumes "phase w = Live" and "i < length (inflight w)"
    and "snd (inflight w ! i) = AwaitArticles b Direct"
  shows "step (Respond i (ArticlesOk d)) w =
     Some (upd (fetchArticles_settle b (Resolved d)) (w\<lparr>inflight := remove_nth i (inflight w)\<rparr>))"
proof -
  let ?w1 = "upd (fetchArticles_settle b (Resolved d)) (w\<lparr>inflight := remove_nth i (inflight w)\<rparr>)"
  have "fetchArticles_deps (st ?w1) = fetchArticles_deps (st w)" by simp
  then have "rerender (st w) ?w1 = ?w1" by (rule rerender_same)
  with assms show ?thesis by (simp add: after_articles_def)
qed

lemma step_Respond_failed:
  assumes "phase w = Live" and "i < length (inflight w)"
    and "snd (inflight w ! i) = AwaitArticles b Direct"
  shows "step (Respond i Failed) w =
     Some (upd (fetchArticles_settle b Rejected) (w\<lparr>inflight := remove_nth i (inflight w)\<rparr>))"
proof -
  let ?w1 = "upd (fetchArticles_settle b Rejected) (w\<lparr>inflight := remove_nth i (inflight w)\<rparr>)"
  have "fetchArticles_deps (st ?w1) = fetchArticles_deps (st w)" by simp
  then have "rerender (st w) ?w1 = ?w1" by (rule rerender_same)
  with assms show ?thesis by (simp add: after_articles_def)
qed

lemma handleSearch_world:
  "st (handle handleSearch w) = (st w)\<lparr>loading := True, page := 1\<rparr>"
  "phase (handle handleSearch w) = phase w"
  "inflight (handle handleSearch w) =
     inflight w @ [(GetArticles (build_params True (st w)), AwaitArticles True Direct)]"
  "sent (handle handleSearch w) = sent w @ [GetArticles (build_params True (st w))]"
  by (simp_all add: handle_def handleSearch_def st_rerender inflight_rerender inflight_commit
      sent_rerender sent_commit)

lemma loadMore_world:
  assumes "loadMore_shown (st w)" and "0 < page (st w)"
  shows "st (handle (upd (loadMore (st w))) w) = (st w)\<lparr>page := page (st w) + 1\<rparr>"
    "phase (handle (upd (loadMore (st w))) w) = phase w"
    "inflight (handle (upd (loadMore (st w))) w) =
       inflight w @ [(GetArticles (build_params False ((st w)\<lparr>page := page (st w) + 1\<rparr>)),
                      AwaitArticles False Direct)]"
    "sent (handle (upd (loadMore (st w))) w) =
       sent w @ [GetArticles (build_params False ((st w)\<lparr>page := page (st w) + 1\<rparr>))]"
  using assms
  by (simp_all add: handle_def loadMore_def loadMore_shown_def st_rerender inflight_rerender
      inflight_commit sent_rerender sent_commit fetchArticles_deps_def)

lemma select_world:
  assumes "selectedSource s' \<noteq> selectedSource (st w) \<or> selectedHours s' \<noteq> selectedHours (st w)"
    and "\<not> loading s'"
  shows "st (rerender (st w) (w\<lparr>st := s'\<rparr>)) = s'\<lparr>loading := True, page := 1\<rparr>"
    "phase (rerender (st w) (w\<lparr>st := s'\<rparr>)) = phase w"
    "\<exists>rest. inflight (rerender (st w) (w\<lparr>st := s'\<rparr>)) =
       inflight w @ (GetArticles (build_params True s'), AwaitArticles True Direct) # rest"
    "\<exists>rest. sent (rerender (st w) (w\<lparr>st := s'\<rparr>)) =
       sent w @ GetArticles (build_params True s') # rest"
  using assms
  by (auto simp add: st_rerender inflight_rerender inflight_commit sent_rerender sent_commit)

lemma replace_fetch_world:
  assumes live: "phase w' = Live"
    and infl: "inflight w' = inflight w @ (GetArticles ps, AwaitArticles True Direct) # rest"
    and sent: "sent w' = sent w @ GetArticles ps # later"
    and step: "step e w = Some w'"
  shows "take 1 (issued e w) = [GetArticles ps]
     \<and> inflight w' ! length (inflight w) = (GetArticles ps, AwaitArticles True Direct)
     \<and> (\<exists>w''. step (Respond (length (inflight w)) (ArticlesOk d)) w' = Some w''
          \<and> articles (st w'') = data_articles d)"
proof -
  let ?n = "length (inflight w)"
  have "phase w' = Live" "?n < length (inflight w')"
    "snd (inflight w' ! ?n) = AwaitArticles True Direct"
    using live by (simp_all add: infl)
  from step_Respond_articles [OF this, of d]
  have "\<exists>w''. step (Respond ?n (ArticlesOk d)) w' = Some w''
          \<and> articles (st w'') = data_articles d"
    by (simp add: fetchArticles_settle_def del: step.simps)
  moreover have "take 1 (issued e w) = [GetArticles ps]"
    by (simp add: issued_def step sent del: step.simps)
  ultimately show ?thesis by (simp add: infl del: step.simps)
qed

lemma run_append:
  "run (es @ es') w = (case run es w of None \<Rightarrow> None | Some w' \<Rightarrow> run es' w')"
  by (induction es arbitrary: w) (simp_all split: option.splits)

lemma reach_page2_pending_from_start:
  "run [Mount, Respond 0 (SourcesOk [sample_source]), Respond 0 (StatsOk sample_stats),
        Respond 0 (ArticlesOk (page_of 20)), ClickLoadMore] world0 = Some world_page2_pending"
proof -
  have "run ([Mount] @ [Respond 0 (SourcesOk [sample_source]), Respond 0 (StatsOk sample_stats),
        Respond 0 (ArticlesOk (page_of 20))] @ [ClickLoadMore]) world0 = Some world_page2_pending"
    unfolding run_append using reach_page1
    by (simp add: reach_mounted reach_page2_pending del: step.simps)
  then show ?thesis by (simp del: step.simps run.simps)
qed

lemma finish_refresh_simps [simp]:
  "st (finish_refresh FromRefresh w) = (st w)\<lparr>refreshing := False\<rparr>"
  "st (finish_refresh Direct w) = st w"
  "phase (finish_refresh c w) = phase w" "inflight (finish_refresh c w) = inflight w"
  "sent (finish_refresh c w) = sent w" "timers (finish_refresh c w) = timers w"
  "interval (finish_refresh c w) = interval w" "next_timer (finish_refresh c w) = next_timer w"
  by (simp_all add: finish_refresh_def split: caller.splits)

lemma after_articles_requests [simp]:
  "inflight (after_articles FromRefresh w) = inflight w @ [(GetStats, AwaitStats FromRefresh)]"
  "sent (after_articles FromRefresh w) = sent w @ [GetStats]"
  "inflight (after_articles Direct w) = inflight w"
  "sent (after_articles Direct w) = sent w"
  by (simp_all add: after_articles_def)

lemma settle_deps [simp]:
  "fetchArticles_deps (fetchStats_settle r s) = fetchArticles_deps s"
  "fetchArticles_deps (fetchSources_settle q s) = fetchArticles_deps s"
  "fetchArticles_deps (s\<lparr>refreshing := x\<rparr>) = fetchArticles_deps s"
  "fetchArticles_deps (s\<lparr>console := y\<rparr>) = fetchArticles_deps s"
  by (simp_all add: fetchStats_settle_def fetchSources_settle_def fetchArticles_deps_def
      split: outcome.splits)

lemma settle_refreshing [simp]:
  "refreshing (fetchArticles_settle b r s) = refreshing s"
  "refreshing (fetchStats_settle r' s) = refreshing s"
  by (simp_all add: fetchArticles_settle_def fetchStats_settle_def split: outcome.splits)

subsection \<open>The polling interval\<close>

text \<open>\<open>timer_ok\<close> holds at the start and every event keeps it.\<close>

lemma effect_timers [simp]:
  "timers (filter_effect cl w) = timers w" "interval (filter_effect cl w) = interval w"
  "next_timer (filter_effect cl w) = next_timer w"
  "timers (page_effect cl w) = timers w" "interval (page_effect cl w) = interval w"
  "next_timer (page_effect cl w) = next_timer w"
  by (simp_all add: filter_effect_def page_effect_def)

lemma timers_commit:
  "timers (commit prev w) =
     (if page (st w) \<noteq> page prev
      then (case interval w of None \<Rightarrow> timers w
            | Some i \<Rightarrow> filter (\<lambda>t. fst t \<noteq> i) (timers w)) @ [(next_timer w, POLL_MS, st w)]
      else timers w)"
  "interval (commit prev w) = (if page (st w) \<noteq> page prev then Some (next_timer w) else interval w)"
  "next_timer (commit prev w) =
     (if page (st w) \<noteq> page prev then Suc (next_timer w) else next_timer w)"
  by (simp_all add: commit_def Let_def interval_effect_def interval_cleanup_def setInterval_def
      clearInterval_def split: option.splits)

lemma live_timer_commit:
  "live_timer w p \<Longrightarrow>
   live_timer (commit prev w) (if page (st w) \<noteq> page prev then page (st w) else p)"
  by (auto simp add: live_timer_def timers_commit split: list.splits)

lemma live_timer_rerender:
  assumes "live_timer w (page prev)"
  shows "live_timer (rerender prev w) (page (st (rerender prev w)))"
proof -
  from live_timer_commit [OF assms, of prev]
  have "live_timer (commit prev w) (page (st w))" by (simp split: if_splits)
  from live_timer_commit [OF this, of "st w"]
  have "live_timer (rerender prev w) (page (st (commit prev w)))"
    by (simp add: rerender_def split: if_splits)
  moreover have "page (st (rerender prev w)) = page (st (commit prev w))"
    by (simp add: st_rerender st_commit)
  ultimately show ?thesis by simp
qed

lemma resume_timers:
  assumes "resume k r w = Some w'"
  shows "timers w' = timers w" "interval w' = interval w" "phase w' = phase w"
    "next_timer w' = next_timer w"
  using assms by (cases k; cases r; auto)+

lemma live_timer_iff:
  "live_timer w p \<longleftrightarrow>
     (\<exists>i cl. timers w = [(i, POLL_MS, cl)] \<and> interval w = Some i \<and> page cl = p)"
proof (cases "timers w")
  case Nil
  then show ?thesis by (simp add: live_timer_def)
next
  case (Cons t ts)
  then show ?thesis
    by (cases t; cases ts) (auto simp add: live_timer_def)
qed

lemma interval_cleanup_simps [simp]:
  "st (interval_cleanup w) = st w" "phase (interval_cleanup w) = phase w"
  by (simp_all add: interval_cleanup_def clearInterval_def split: option.splits)

lemma live_timer_cleanup: "live_timer w p \<Longrightarrow> timers (interval_cleanup w) = []"
  by (auto simp add: live_timer_iff interval_cleanup_def clearInterval_def)

lemma handle_timer_ok:
  assumes "timer_ok w" and "phase w = Live"
    and "timers (h w) = timers w" and "interval (h w) = interval w" and "phase (h w) = Live"
  shows "timer_ok (rerender (st w) (h w))"
proof -
  from assms have "live_timer (h w) (page (st w))"
    by (simp add: timer_ok_def live_timer_iff)
  from live_timer_rerender [OF this] assms(5) show ?thesis
    by (simp add: timer_ok_def)
qed

lemma tick_simps [simp]:
  "timers (tick cl w) = timers w" "interval (tick cl w) = interval w"
  "phase (tick cl w) = phase w" "next_timer (tick cl w) = next_timer w"
  by (simp_all add: tick_def Let_def)

lemma handler_simps [simp]:
  "timers (handleSearch w) = timers w" "interval (handleSearch w) = interval w"
  "phase (handleSearch w) = phase w" "next_timer (handleSearch w) = next_timer w"
  "timers (handleRefresh w) = timers w" "interval (handleRefresh w) = interval w"
  "phase (handleRefresh w) = phase w" "next_timer (handleRefresh w) = next_timer w"
  by (simp_all add: handleSearch_def handleRefresh_def)

lemma mount_timer_ok:
  assumes "timers w = []" and "phase w = Live"
  shows "timer_ok (mount w)"
proof -
  let ?w1 = "interval_effect (st w) (page_effect (st w) (filter_effect (st w) (initial_load_effect (st w) w)))"
  have "live_timer ?w1 (page (st w))"
    using assms
    by (simp add: live_timer_def interval_effect_def setInterval_def initial_load_effect_def
        call_fetchSources_def)
  from live_timer_rerender [OF this] have "live_timer (mount w) (page (st (mount w)))"
    by (simp add: mount_def Let_def)
  moreover have "phase (mount w) = Live"
    using assms
    by (simp add: mount_def Let_def interval_effect_def setInterval_def filter_effect_def
        page_effect_def initial_load_effect_def call_fetchSources_def)
  ultimately show ?thesis by (simp add: timer_ok_def)
qed

lemma timer_live_lookup:
  "timer_ok w \<Longrightarrow> map_of (timers w) i = Some y \<Longrightarrow> phase w = Live"
  by (cases "phase w") (simp_all add: timer_ok_def)

lemma handle_step_timer_ok:
  assumes "timer_ok w" and "phase w = Live"
    and "timers (h w) = timers w" and "interval (h w) = interval w" and "phase (h w) = phase w"
  shows "timer_ok (handle h w)"
  unfolding handle_def using assms by (intro handle_timer_ok) simp_all

lemma step_timer_ok:
  assumes "timer_ok w" and "step e w = Some w'"
  shows "timer_ok w'"
proof (cases e)
  case Mount
  with assms have "phase w = Fresh" and w': "w' = mount (w\<lparr>phase := Live\<rparr>)"
    by (auto split: if_splits)
  with assms(1) have "timers (w\<lparr>phase := Live\<rparr>) = []" by (simp add: timer_ok_def)
  then show ?thesis unfolding w' by (rule mount_timer_ok) simp
next
  case Unmount
  with assms have live: "phase w = Live" and w': "w' = interval_cleanup (w\<lparr>phase := Torn\<rparr>)"
    by (auto split: if_splits)
  with assms(1) have "live_timer (w\<lparr>phase := Torn\<rparr>) (page (st w))"
    by (simp add: timer_ok_def live_timer_iff)
  from live_timer_cleanup [OF this] show ?thesis by (simp add: w' timer_ok_def)
next
  case (SelectSource v)
  with assms have live: "phase w = Live" and w': "w' = handle (upd (\<lambda>s. s\<lparr>selectedSource := v\<rparr>)) w"
    by (auto split: if_splits)
  from assms(1) live show ?thesis unfolding w' by (intro handle_step_timer_ok) simp_all
next
  case (SelectHours v)
  with assms have live: "phase w = Live" and w': "w' = handle (upd (\<lambda>s. s\<lparr>selectedHours := v\<rparr>)) w"
    by (auto split: if_splits)
  from assms(1) live show ?thesis unfolding w' by (intro handle_step_timer_ok) simp_all
next
  case (TypeSearch v)
  with assms have live: "phase w = Live" and w': "w' = handle (upd (\<lambda>s. s\<lparr>searchTerm := v\<rparr>)) w"
    by (auto split: if_splits)
  from assms(1) live show ?thesis unfolding w' by (intro handle_step_timer_ok) simp_all
next
  case SubmitSearch
  with assms have live: "phase w = Live" and w': "w' = handle handleSearch w"
    by (auto split: if_splits)
  from assms(1) live show ?thesis unfolding w' by (intro handle_step_timer_ok) simp_all
next
  case ClickLoadMore
  with assms have live: "phase w = Live" and w': "w' = handle (upd (loadMore (st w))) w"
    by (auto split: if_splits)
  from assms(1) live show ?thesis unfolding w' by (intro handle_step_timer_ok) simp_all
next
  case ClickRefresh
  with assms have live: "phase w = Live" and w': "w' = handle handleRefresh w"
    by (auto split: if_splits)
  from assms(1) live show ?thesis unfolding w' by (intro handle_step_timer_ok) simp_all
next
  case (Tick i)
  with assms obtain ms cl where m: "map_of (timers w) i = Some (ms, cl)"
    and w': "w' = handle (tick cl) w"
    by (auto split: option.splits)
  from timer_live_lookup [OF assms(1) m] have "phase w = Live" .
  with assms(1) show ?thesis unfolding w' by (intro handle_step_timer_ok) simp_all
next
  case (Respond i r)
  with assms obtain w1 where live: "phase w = Live"
    and r: "resume (snd (inflight w ! i)) r (w\<lparr>inflight := remove_nth i (inflight w)\<rparr>) = Some w1"
    and w': "w' = rerender (st w) w1"
    by (auto split: if_splits option.splits)
  from resume_timers [OF r] live assms(1) have "live_timer w1 (page (st w))" "phase w1 = Live"
    by (simp_all add: timer_ok_def live_timer_iff)
  from live_timer_rerender [OF this(1)] this(2) show ?thesis
    by (simp add: w' timer_ok_def)
qed

lemma run_timer_ok: "timer_ok w \<Longrightarrow> run es w = Some w' \<Longrightarrow> timer_ok w'"
  by (induction es arbitrary: w) (auto split: option.splits dest: step_timer_ok)

lemma timer_ok_world0: "timer_ok world0"
  by (simp add: timer_ok_def world0_def)

text \<open>A change of the page starts a new interval.\<close>

lemma next_timer_rerender:
  "next_timer (rerender prev x) =
     next_timer x + (if page (st x) \<noteq> page prev then 1 else 0)
       + (if page (st (commit prev x)) \<noteq> page (st x) then 1 else 0)"
  by (simp add: rerender_def timers_commit)

lemma page_rerender: "page (st (rerender prev x)) = page (st (commit prev x))"
  by (simp add: st_rerender st_commit)

lemma restart_on_page_change:
  assumes "page (st (rerender prev x)) \<noteq> page prev"
  shows "next_timer x < next_timer (rerender prev x)"
proof (cases "page (st x) = page prev")
  case True
  with assms have "page (st (commit prev x)) \<noteq> page (st x)" by (simp add: page_rerender)
  then show ?thesis by (simp add: next_timer_rerender)
next
  case False
  then show ?thesis by (simp add: next_timer_rerender)
qed

lemma handle_restarts:
  assumes "page (st (handle h w)) \<noteq> page (st w)" and "next_timer (h w) = next_timer w"
  shows "next_timer w < next_timer (handle h w)"
  using restart_on_page_change [of "st w" "h w"] assms by (simp add: handle_def)

lemma step_restarts:
  assumes "step e w = Some w'" and "page (st w') \<noteq> page (st w)"
  shows "next_timer w < next_timer w'"
proof (cases e)
  case Mount
  with assms have w': "w' = mount (w\<lparr>phase := Live\<rparr>)"
    by (auto split: if_splits)
  let ?x = "interval_effect (st w) (page_effect (st w) (filter_effect (st w)
     (initial_load_effect (st w) (w\<lparr>phase := Live\<rparr>))))"
  have "next_timer w < next_timer ?x"
    by (simp add: interval_effect_def setInterval_def initial_load_effect_def
        call_fetchSources_def)
  also have "\<dots> \<le> next_timer (rerender (st w) ?x)" by (simp add: next_timer_rerender)
  finally show ?thesis by (simp add: w' mount_def Let_def)
next
  case Unmount
  with assms show ?thesis by (auto split: if_splits)
next
  case (SelectSource v)
  with assms have w': "w' = handle (upd (\<lambda>s. s\<lparr>selectedSource := v\<rparr>)) w"
    by (auto split: if_splits)
  from assms(2) show ?thesis unfolding w' by (rule handle_restarts) simp
next
  case (SelectHours v)
  with assms have w': "w' = handle (upd (\<lambda>s. s\<lparr>selectedHours := v\<rparr>)) w"
    by (auto split: if_splits)
  from assms(2) show ?thesis unfolding w' by (rule handle_restarts) simp
next
  case (TypeSearch v)
  with assms have w': "w' = handle (upd (\<lambda>s. s\<lparr>searchTerm := v\<rparr>)) w"
    by (auto split: if_splits)
  from assms(2) show ?thesis unfolding w' by (rule handle_restarts) simp
next
  case SubmitSearch
  with assms have w': "w' = handle handleSearch w"
    by (auto split: if_splits)
  from assms(2) show ?thesis unfolding w' by (rule handle_restarts) simp
next
  case ClickLoadMore
  with assms have w': "w' = handle (upd (loadMore (st w))) w"
    by (auto split: if_splits)
  from assms(2) show ?thesis unfolding w' by (rule handle_restarts) simp
next
  case ClickRefresh
  with assms have w': "w' = handle handleRefresh w"
    by (auto split: if_splits)
  from assms(2) show ?thesis unfolding w' by (rule handle_restarts) simp
next
  case (Tick i)
  with assms obtain ms cl where w': "w' = handle (tick cl) w"
    by (auto split: option.splits)
  from assms(2) show ?thesis unfolding w' by (rule handle_restarts) simp
next
  case (Respond i r)
  with assms obtain w1 where
    r: "resume (snd (inflight w ! i)) r (w\<lparr>inflight := remove_nth i (inflight w)\<rparr>) = Some w1"
    and w': "w' = rerender (st w) w1"
    by (auto split: if_splits option.splits)
  from restart_on_page_change [of "st w" w1] assms(2) resume_timers(4) [OF r]
  show ?thesis by (simp add: w')
qed

lemma tick_issued:
  assumes "map_of (timers w) i = Some (ms, cl)" and "page cl = page (st w)"
  shows "issued (Tick i) w =
     GetStats # (if page (st w) = 1 then [GetArticles (build_params True cl)] else [])"
proof -
  have "fetchArticles_deps (st (tick cl w)) = fetchArticles_deps (st w)"
    using assms(2) by (simp add: tick_def Let_def fetchArticles_deps_def)
  then have "handle (tick cl) w = tick cl w" by (simp add: handle_def rerender_same)
  then show ?thesis using assms by (simp add: issued_def tick_def Let_def)
qed

subsection \<open>The page counter\<close>

text \<open>The page is 1 at the start, and is only set to 1 or counted up.\<close>

lemma step_page_positive:
  assumes "0 < page (st w)" and "step e w = Some w'"
  shows "0 < page (st w')"
proof (cases e)
  case Mount
  with assms show ?thesis
    by (auto simp add: mount_def Let_def st_rerender interval_effect_def setInterval_def
        page_effect_def filter_effect_def initial_load_effect_def call_fetchSources_def
        split: if_splits)
next
  case Unmount
  with assms show ?thesis by (auto split: if_splits)
next
  case (Tick i)
  with assms show ?thesis
    by (auto simp add: handle_def st_rerender tick_def Let_def split: option.splits if_splits)
next
  case (Respond i r)
  with assms obtain w1 where
    r: "resume (snd (inflight w ! i)) r (w\<lparr>inflight := remove_nth i (inflight w)\<rparr>) = Some w1"
    and w': "w' = rerender (st w) w1"
    by (auto split: if_splits option.splits)
  from r assms(1) have "0 < page (st w1)"
    by (cases "snd (inflight w ! i)"; cases r)
      (auto simp add: fetchArticles_settle_def fetchStats_settle_def fetchSources_settle_def
        finish_refresh_def split: caller.splits)
  then show ?thesis by (simp add: w' st_rerender)
qed (use assms in \<open>auto simp add: handle_def st_rerender loadMore_def handleSearch_def
      handleRefresh_def split: if_splits\<close>)

lemma reachable_page_positive: "run es world0 = Some w \<Longrightarrow> 0 < page (st w)"
proof -
  have "0 < page (st w0) \<Longrightarrow> run es w0 = Some w \<Longrightarrow> 0 < page (st w)" for w0
    by (induction es arbitrary: w0) (auto split: option.splits dest: step_page_positive)
  moreover have "0 < page (st world0)" by (simp add: world0_def)
  ultimately show "run es world0 = Some w \<Longrightarrow> 0 < page (st w)" by blast
qed

text \<open>After the two renders of \<open>rerender\<close> no effect has a changed dependency.\<close>

lemma rerender_settled: "commit (st (commit prev w)) (rerender prev w) = rerender prev w"
  by (rule commit_same) (simp add: st_rerender st_commit)

subsection \<open>While loading, the page is 1\<close>

lemma resume_loading_page:
  assumes "resume k r w = Some w1" and "loading (st w) \<longrightarrow> page (st w) = 1"
  shows "loading (st w1) \<longrightarrow> page (st w1) = 1"
  using assms
  by (cases k; cases r)
    (auto simp add: fetchArticles_settle_def fetchStats_settle_def fetchSources_settle_def
      finish_refresh_def split: caller.splits)

lemma rerender_loading_page:
  assumes "loading (st x) \<longrightarrow> page (st x) = 1"
  shows "loading (st (rerender prev x)) \<longrightarrow> page (st (rerender prev x)) = 1"
  using assms by (simp add: st_rerender)

lemma step_loading_page:
  assumes "loading (st w) \<longrightarrow> page (st w) = 1" and "step e w = Some w'"
  shows "loading (st w') \<longrightarrow> page (st w') = 1"
proof (cases e)
  case Mount
  with assms(2) have w': "w' = mount (w\<lparr>phase := Live\<rparr>)" by (auto split: if_splits)
  show ?thesis unfolding w' mount_def Let_def
    by (rule rerender_loading_page)
      (simp add: interval_effect_def setInterval_def page_effect_def filter_effect_def
        initial_load_effect_def call_fetchSources_def)
next
  case Unmount
  with assms show ?thesis by (auto split: if_splits)
next
  case (SelectSource v)
  with assms(2) have w': "w' = handle (upd (\<lambda>s. s\<lparr>selectedSource := v\<rparr>)) w"
    by (auto split: if_splits)
  show ?thesis unfolding w' handle_def using assms(1) by (intro rerender_loading_page) simp
next
  case (SelectHours v)
  with assms(2) have w': "w' = handle (upd (\<lambda>s. s\<lparr>selectedHours := v\<rparr>)) w"
    by (auto split: if_splits)
  show ?thesis unfolding w' handle_def using assms(1) by (intro rerender_loading_page) simp
next
  case (TypeSearch v)
  with assms(2) have w': "w' = handle (upd (\<lambda>s. s\<lparr>searchTerm := v\<rparr>)) w"
    by (auto split: if_splits)
  show ?thesis unfolding w' handle_def using assms(1) by (intro rerender_loading_page) simp
next
  case SubmitSearch
  with assms(2) have w': "w' = handle handleSearch w" by (auto split: if_splits)
  show ?thesis unfolding w' handle_def
    by (intro rerender_loading_page) (simp add: handleSearch_def)
next
  case ClickLoadMore
  with assms(2) have w': "w' = handle (upd (loadMore (st w))) w"
    and shown: "loadMore_shown (st w)" by (auto split: if_splits)
  show ?thesis unfolding w' handle_def using shown
    by (intro rerender_loading_page) (simp add: loadMore_def loadMore_shown_def)
next
  case ClickRefresh
  with assms(2) have w': "w' = handle handleRefresh w" by (auto split: if_splits)
  show ?thesis unfolding w' handle_def using assms(1)
    by (intro rerender_loading_page) (simp add: handleRefresh_def)
next
  case (Tick i)
  with assms(2) obtain ms cl where w': "w' = handle (tick cl) w"
    by (auto split: option.splits)
  show ?thesis unfolding w' handle_def using assms(1)
    by (intro rerender_loading_page) (simp add: tick_def Let_def)
next
  case (Respond i r)
  with assms(2) obtain w1 where
    r: "resume (snd (inflight w ! i)) r (w\<lparr>inflight := remove_nth i (inflight w)\<rparr>) = Some w1"
    and w': "w' = rerender (st w) w1"
    by (auto split: if_splits option.splits)
  from resume_loading_page [OF r] assms(1) have "loading (st w1) \<longrightarrow> page (st w1) = 1" by simp
  then show ?thesis unfolding w' by (rule rerender_loading_page)
qed

lemma reachable_loading_page:
  assumes "run es world0 = Some w"
  shows "loading (st w) \<longrightarrow> page (st w) = 1"
proof -
  have "(loading (st w0) \<longrightarrow> page (st w0) = 1) \<Longrightarrow> run es w0 = Some w
      \<Longrightarrow> loading (st w) \<longrightarrow> page (st w) = 1" for w0
  proof (induction es arbitrary: w0)
    case Nil
    then show ?case by simp
  next
    case (Cons e es)
    from Cons.prems(2) obtain w1 where s: "step e w0 = Some w1" and r: "run es w1 = Some w"
      by (auto split: option.splits)
    from step_loading_page [OF Cons.prems(1) s] r show ?case by (rule Cons.IH)
  qed
  moreover have "loading (st world0) \<longrightarrow> page (st world0) = 1" by (simp add: world0_def)
  ultimately show ?thesis using assms by blast
qed

lemma select_while_loading:
  assumes "step e w = Some w'" and "set_filter e (st w) \<noteq> st w"
    and "loading (st w)" and "page (st w) = 1"
  shows "issued e w = [] \<and> inflight w' = inflight w \<and> st w' = set_filter e (st w)"
proof -
  have gen: "issued e w = [] \<and> inflight w' = inflight w \<and> st w' = s'"
    if w': "w' = rerender (st w) (w\<lparr>st := s'\<rparr>)" and l: "loading s'" and p: "page s' = 1" for s'
    using assms(1) l p
    by (simp add: issued_def w' st_rerender sent_rerender sent_commit inflight_rerender
        inflight_commit del: step.simps)
  show ?thesis
  proof (cases e)
    case (SelectSource v)
    with assms(1) have "w' = rerender (st w) (w\<lparr>st := (st w)\<lparr>selectedSource := v\<rparr>\<rparr>)"
      by (auto simp add: handle_def upd_def split: if_splits)
    from gen [OF this] assms(3,4) SelectSource show ?thesis by simp
  next
    case (SelectHours v)
    with assms(1) have "w' = rerender (st w) (w\<lparr>st := (st w)\<lparr>selectedHours := v\<rparr>\<rparr>)"
      by (auto simp add: handle_def upd_def split: if_splits)
    from gen [OF this] assms(3,4) SelectHours show ?thesis by simp
  qed (use assms(2) in simp_all)
qed

subsection \<open>The manual refresh\<close>

lemma remove_nth_map: "map f (remove_nth i xs) = remove_nth i (map f xs)"
  by (simp add: remove_nth_def take_map drop_map)

lemma filter_split_nth:
  assumes "i < length xs"
  shows "filter P xs = filter P (take i xs) @ (if P (xs ! i) then [xs ! i] else [])
     @ filter P (drop (Suc i) xs)"
proof -
  from id_take_nth_drop [OF assms]
  have "filter P xs = filter P (take i xs @ xs ! i # drop (Suc i) xs)" by (rule arg_cong)
  also have "\<dots> = filter P (take i xs) @ (if P (xs ! i) then [xs ! i] else [])
     @ filter P (drop (Suc i) xs)" by simp
  finally show ?thesis .
qed

lemma filter_remove_nth:
  "filter P (remove_nth i xs) = filter P (take i xs) @ filter P (drop (Suc i) xs)"
  by (simp add: remove_nth_def)

lemma filter_nth_single:
  assumes "i < length xs" and "P (xs ! i)" and "length (filter P xs) \<le> 1"
  shows "filter P xs = [xs ! i]" and "filter P (remove_nth i xs) = []"
proof -
  from filter_split_nth [OF assms(1), of P] assms(2)
  have f: "filter P xs = filter P (take i xs) @ [xs ! i] @ filter P (drop (Suc i) xs)" by simp
  with assms(3) have "filter P (take i xs) = []" "filter P (drop (Suc i) xs) = []" by simp_all
  with f show "filter P xs = [xs ! i]" "filter P (remove_nth i xs) = []"
    by (simp_all add: filter_remove_nth)
qed

lemma filter_nth_miss:
  assumes "i < length xs" and "\<not> P (xs ! i)"
  shows "filter P (remove_nth i xs) = filter P xs"
  using filter_split_nth [OF assms(1), of P] assms(2) by (simp add: filter_remove_nth)

lemma refresh_ok_iff:
  "refresh_ok w \<longleftrightarrow>
     (refreshing (st w) = (refresh_pending w \<noteq> [])) \<and> length (refresh_pending w) \<le> 1
     \<and> AwaitArticles False FromRefresh \<notin> set (refresh_pending w)"
proof (cases "refresh_pending w")
  case Nil
  then show ?thesis by (simp add: refresh_ok_def)
next
  case (Cons k ks)
  then show ?thesis by (cases ks) (auto simp add: refresh_ok_def)
qed

lemma refresh_pending_send [simp]:
  "refresh_pending (send rq k w) = refresh_pending w @ (if refresh_step k then [k] else [])"
  by (simp add: refresh_pending_def)

lemma refresh_pending_upd [simp]:
  "refresh_pending (upd f w) = refresh_pending w"
  "refresh_pending (finish_refresh c w) = refresh_pending w"
  by (simp_all add: refresh_pending_def)

lemma refresh_pending_calls [simp]:
  "refresh_pending (call_fetchArticles b Direct cl w) = refresh_pending w"
  "refresh_pending (call_fetchArticles b FromRefresh cl w)
     = refresh_pending w @ [AwaitArticles b FromRefresh]"
  "refresh_pending (call_fetchStats Direct w) = refresh_pending w"
  "refresh_pending (call_fetchStats FromRefresh w) = refresh_pending w @ [AwaitStats FromRefresh]"
  by (simp_all add: refresh_pending_def)

lemma refresh_pending_after [simp]:
  "refresh_pending (after_articles Direct w) = refresh_pending w"
  "refresh_pending (after_articles FromRefresh w) = refresh_pending w @ [AwaitStats FromRefresh]"
  by (simp_all add: after_articles_def)

lemma refresh_pending_commit [simp]: "refresh_pending (commit prev w) = refresh_pending w"
  by (simp add: refresh_pending_def inflight_commit)

lemma refresh_pending_rerender [simp]: "refresh_pending (rerender prev w) = refresh_pending w"
  by (simp add: rerender_def)

lemma refreshing_rerender [simp]: "refreshing (st (rerender prev w)) = refreshing (st w)"
  by (simp add: st_rerender)

lemma refresh_pending_remove:
  assumes "i < length (inflight w)"
  shows "refresh_step (snd (inflight w ! i)) \<Longrightarrow> length (refresh_pending w) \<le> 1 \<Longrightarrow>
         refresh_pending (w\<lparr>inflight := remove_nth i (inflight w)\<rparr>) = []"
    and "refresh_step (snd (inflight w ! i)) \<Longrightarrow> length (refresh_pending w) \<le> 1 \<Longrightarrow>
         refresh_pending w = [snd (inflight w ! i)]"
    and "\<not> refresh_step (snd (inflight w ! i)) \<Longrightarrow>
         refresh_pending (w\<lparr>inflight := remove_nth i (inflight w)\<rparr>) = refresh_pending w"
  using assms filter_nth_single [of i "map snd (inflight w)" refresh_step]
    filter_nth_miss [of i "map snd (inflight w)" refresh_step]
  by (simp_all add: refresh_pending_def remove_nth_map)

lemma step_Respond_world:
  assumes "step (Respond i r) w = Some w'"
  obtains w1 where "phase w = Live" and "i < length (inflight w)"
    and "resume (snd (inflight w ! i)) r (w\<lparr>inflight := remove_nth i (inflight w)\<rparr>) = Some w1"
    and "w' = rerender (st w) w1"
  using assms by (auto split: if_splits option.splits)

lemma issued_Respond:
  assumes "step (Respond i r) w = Some (rerender (st w) w1)"
    and "fetchArticles_deps (st w1) = fetchArticles_deps (st w) \<or> 
         (page (st w1) = 1 \<and> selectedSource (st w1) = selectedSource (st w)
           \<and> selectedHours (st w1) = selectedHours (st w))"
  shows "issued (Respond i r) w = drop (length (sent w)) (sent w1)"
  using assms
  by (auto simp add: issued_def sent_rerender sent_commit fetchArticles_deps_def
      simp del: step.simps)

lemma refresh_click:
  assumes "step ClickRefresh w = Some w'"
  shows "\<not> refreshing (st w) \<and> refreshing (st w') \<and> issued ClickRefresh w = [PostRefresh]
     \<and> refresh_pending w' = refresh_pending w @ [AwaitRefresh (st w)]"
proof -
  from assms have nr: "\<not> refreshing (st w)" and w': "w' = handle handleRefresh w"
    by (auto simp add: refresh_disabled_def split: if_splits)
  have "sent w' = sent w @ [PostRefresh]"
    by (simp add: w' handle_def handleRefresh_def sent_rerender sent_commit fetchArticles_deps_def)
  then have "issued ClickRefresh w = [PostRefresh]"
    using assms by (simp add: issued_def del: step.simps)
  then show ?thesis using nr by (simp add: w' handle_def handleRefresh_def)
qed

lemma refresh_posted:
  assumes "step (Respond i r) w = Some w'" and "snd (inflight w ! i) = AwaitRefresh cl"
    and "refresh_ok w"
  shows "refreshing (st w)
     \<and> (r = RefreshOk \<longrightarrow> issued (Respond i r) w = [GetArticles (build_params True cl)]
           \<and> refresh_pending w' = [AwaitArticles True FromRefresh]
           \<and> page (st w') = 1 \<and> refreshing (st w'))
     \<and> (r \<noteq> RefreshOk \<longrightarrow> r = Failed \<and> issued (Respond i r) w = []
           \<and> refresh_pending w' = [] \<and> \<not> refreshing (st w')
           \<and> articles (st w') = articles (st w) \<and> stats (st w') = stats (st w))"
proof -
  let ?w0 = "w\<lparr>inflight := remove_nth i (inflight w)\<rparr>"
  from assms(1) obtain w1 where i: "i < length (inflight w)"
    and r: "resume (AwaitRefresh cl) r ?w0 = Some w1" and w': "w' = rerender (st w) w1"
    by (rule step_Respond_world) (simp add: assms(2))
  from assms(3) have le: "length (refresh_pending w) \<le> 1"
    and fl: "refreshing (st w) = (refresh_pending w \<noteq> [])"
    by (simp_all add: refresh_ok_iff)
  from refresh_pending_remove(1,2) [OF i] le assms(2)
  have rp: "refresh_pending ?w0 = []" "refresh_pending w = [AwaitRefresh cl]" by simp_all
  with fl have on: "refreshing (st w)" by simp
  from r have "r = RefreshOk \<or> r = Failed" by (cases r) simp_all
  then show ?thesis
  proof
    assume ok: "r = RefreshOk"
    with r have w1: "w1 = call_fetchArticles True FromRefresh cl ?w0" by simp
    from assms(1) have "issued (Respond i r) w = drop (length (sent w)) (sent w1)"
      unfolding w' by (rule issued_Respond) (simp add: w1)
    then show ?thesis using ok on rp by (simp add: w' w1 st_rerender)
  next
    assume f: "r = Failed"
    with r have w1: "w1 = upd (\<lambda>s. s\<lparr>console := console s @ [''Error refreshing:''],
        refreshing := False\<rparr>) ?w0" by simp
    from assms(1) have "issued (Respond i r) w = drop (length (sent w)) (sent w1)"
      unfolding w' by (rule issued_Respond) (simp add: w1 fetchArticles_deps_def)
    then show ?thesis using f on rp by (simp add: w' w1 st_rerender)
  qed
qed

lemma refresh_articles_settled:
  assumes "step (Respond i r) w = Some w'"
    and "snd (inflight w ! i) = AwaitArticles b FromRefresh" and "refresh_ok w"
  shows "b \<and> refreshing (st w) \<and> issued (Respond i r) w = [GetStats]
     \<and> refresh_pending w' = [AwaitStats FromRefresh] \<and> refreshing (st w')
     \<and> \<not> loading (st w')
     \<and> (\<forall>d. r = ArticlesOk d \<longrightarrow> articles (st w') = data_articles d
           \<and> totalArticles (st w') = data_total d
           \<and> hasMore (st w') = (length (data_articles d) = 20))
     \<and> (r = Failed \<longrightarrow> articles (st w') = articles (st w)
           \<and> totalArticles (st w') = totalArticles (st w) \<and> hasMore (st w') = hasMore (st w))"
proof -
  let ?w0 = "w\<lparr>inflight := remove_nth i (inflight w)\<rparr>"
  from assms(1) obtain w1 where i: "i < length (inflight w)"
    and r: "resume (AwaitArticles b FromRefresh) r ?w0 = Some w1"
    and w': "w' = rerender (st w) w1"
    by (rule step_Respond_world) (simp add: assms(2))
  from assms(3) have le: "length (refresh_pending w) \<le> 1"
    and fl: "refreshing (st w) = (refresh_pending w \<noteq> [])"
    and nf: "AwaitArticles False FromRefresh \<notin> set (refresh_pending w)"
    by (simp_all add: refresh_ok_iff)
  from refresh_pending_remove(1,2) [OF i] le assms(2)
  have rp: "refresh_pending ?w0 = []" "refresh_pending w = [AwaitArticles b FromRefresh]"
    by simp_all
  with fl nf have on: "refreshing (st w)" and b: b by auto
  from r obtain out where out: "(r = Failed \<and> out = Rejected) \<or> (\<exists>d. r = ArticlesOk d \<and> out = Resolved d)"
    and w1: "w1 = after_articles FromRefresh (upd (fetchArticles_settle b out) ?w0)"
    by (cases r) auto
  have same: "fetchArticles_deps (st w1) = fetchArticles_deps (st w)" by (simp add: w1)
  then have id: "w' = w1" by (simp add: w' rerender_same)
  from assms(1) have "issued (Respond i r) w = drop (length (sent w)) (sent w1)"
    unfolding w' by (rule issued_Respond) (simp add: same)
  then have sends: "issued (Respond i r) w = [GetStats]" by (simp add: w1)
  have st: "st w' = fetchArticles_settle b out (st w)" by (simp add: id w1)
  from out show ?thesis
    using b on rp sends
    by (auto simp add: st fetchArticles_settle_def id w1)
qed

lemma refresh_stats_settled:
  assumes "step (Respond i r) w = Some w'"
    and "snd (inflight w ! i) = AwaitStats FromRefresh" and "refresh_ok w"
  shows "refreshing (st w) \<and> issued (Respond i r) w = []
     \<and> refresh_pending w' = [] \<and> \<not> refreshing (st w')
     \<and> (\<forall>d. r = StatsOk d \<longrightarrow> stats (st w') = Some d)
     \<and> (r = Failed \<longrightarrow> stats (st w') = stats (st w))"
proof -
  let ?w0 = "w\<lparr>inflight := remove_nth i (inflight w)\<rparr>"
  from assms(1) obtain w1 where i: "i < length (inflight w)"
    and r: "resume (AwaitStats FromRefresh) r ?w0 = Some w1"
    and w': "w' = rerender (st w) w1"
    by (rule step_Respond_world) (simp add: assms(2))
  from assms(3) have le: "length (refresh_pending w) \<le> 1"
    and fl: "refreshing (st w) = (refresh_pending w \<noteq> [])"
    by (simp_all add: refresh_ok_iff)
  from refresh_pending_remove(1,2) [OF i] le assms(2)
  have rp: "refresh_pending ?w0 = []" "refresh_pending w = [AwaitStats FromRefresh]"
    by simp_all
  with fl have on: "refreshing (st w)" by simp
  from r obtain out where out: "(r = Failed \<and> out = Rejected) \<or> (\<exists>d. r = StatsOk d \<and> out = Resolved d)"
    and w1: "w1 = finish_refresh FromRefresh (upd (fetchStats_settle out) ?w0)"
    by (cases r) auto
  have same: "fetchArticles_deps (st w1) = fetchArticles_deps (st w)" by (simp add: w1)
  then have id: "w' = w1" by (simp add: w' rerender_same)
  from assms(1) have "issued (Respond i r) w = drop (length (sent w)) (sent w1)"
    unfolding w' by (rule issued_Respond) (simp add: same)
  then have sends: "issued (Respond i r) w = []" by (simp add: w1)
  from out show ?thesis
    using on rp sends
    by (auto simp add: fetchStats_settle_def id w1)
qed

lemma resume_other:
  assumes "resume k r w0 = Some w1" and "\<not> refresh_step k"
  shows "refreshing (st w1) = refreshing (st w0)" and "refresh_pending w1 = refresh_pending w0"
  using assms
  by (cases k; cases r; auto simp add: fetchSources_settle_def elim: refresh_step.elims
      split: caller.splits)+

lemma handle_other:
  assumes "refreshing (st (h w)) = refreshing (st w)" and "refresh_pending (h w) = refresh_pending w"
  shows "refreshing (st (handle h w)) = refreshing (st w)
     \<and> refresh_pending (handle h w) = refresh_pending w"
  using assms by (simp add: handle_def)

lemma refresh_other:
  assumes "step e w = Some w'" and "e \<noteq> ClickRefresh"
    and "\<forall>i r. e = Respond i r \<longrightarrow> \<not> refresh_step (snd (inflight w ! i))"
  shows "refreshing (st w') = refreshing (st w) \<and> refresh_pending w' = refresh_pending w"
proof (cases e)
  case Mount
  with assms(1) have w': "w' = mount (w\<lparr>phase := Live\<rparr>)" by (auto split: if_splits)
  show ?thesis
    by (simp add: w' mount_def Let_def interval_effect_def setInterval_def page_effect_def
        filter_effect_def initial_load_effect_def call_fetchSources_def refresh_pending_def
        inflight_rerender inflight_commit)
next
  case Unmount
  with assms(1) show ?thesis
    by (auto simp add: refresh_pending_def interval_cleanup_def clearInterval_def
        split: if_splits option.splits)
next
  case (SelectSource v)
  with assms(1) have "w' = handle (upd (\<lambda>s. s\<lparr>selectedSource := v\<rparr>)) w"
    by (auto split: if_splits)
  then show ?thesis by (simp add: handle_other)
next
  case (SelectHours v)
  with assms(1) have "w' = handle (upd (\<lambda>s. s\<lparr>selectedHours := v\<rparr>)) w"
    by (auto split: if_splits)
  then show ?thesis by (simp add: handle_other)
next
  case (TypeSearch v)
  with assms(1) have "w' = handle (upd (\<lambda>s. s\<lparr>searchTerm := v\<rparr>)) w"
    by (auto split: if_splits)
  then show ?thesis by (simp add: handle_other)
next
  case SubmitSearch
  with assms(1) have "w' = handle handleSearch w" by (auto split: if_splits)
  then show ?thesis by (simp add: handle_other handleSearch_def)
next
  case ClickLoadMore
  with assms(1) have "w' = handle (upd (loadMore (st w))) w" by (auto split: if_splits)
  then show ?thesis by (simp add: handle_other loadMore_def)
next
  case ClickRefresh
  with assms(2) show ?thesis by simp
next
  case (Tick i)
  with assms(1) obtain ms cl where "w' = handle (tick cl) w" by (auto split: option.splits)
  then show ?thesis by (simp add: handle_other tick_def Let_def)
next
  case (Respond i r)
  let ?w0 = "w\<lparr>inflight := remove_nth i (inflight w)\<rparr>"
  from assms(1) obtain w1 where i: "i < length (inflight w)"
    and r: "resume (snd (inflight w ! i)) r ?w0 = Some w1" and w': "w' = rerender (st w) w1"
    unfolding Respond by (rule step_Respond_world)
  from assms(3) Respond have n: "\<not> refresh_step (snd (inflight w ! i))" by simp
  from resume_other [OF r n] refresh_pending_remove(3) [OF i n]
  show ?thesis by (simp add: w')
qed

lemma refresh_step_cases:
  assumes "refresh_step k"
  obtains cl where "k = AwaitRefresh cl" | b where "k = AwaitArticles b FromRefresh"
    | "k = AwaitStats FromRefresh"
  using assms by (rule refresh_step.elims) auto

lemma step_refresh_ok:
  assumes ok: "refresh_ok w" and step: "step e w = Some w'"
  shows "refresh_ok w'"
proof (cases "e = ClickRefresh")
  case True
  from refresh_click [OF step [unfolded True]] ok show ?thesis
    by (simp add: refresh_ok_iff)
next
  case False
  show ?thesis
  proof (cases "\<exists>i r. e = Respond i r \<and> refresh_step (snd (inflight w ! i))")
    case True
    then obtain i r where e: "e = Respond i r" and k: "refresh_step (snd (inflight w ! i))"
      by blast
    from k show ?thesis
    proof (cases rule: refresh_step_cases)
      case (1 cl)
      from refresh_posted [OF step [unfolded e] 1 ok] show ?thesis
        by (cases "r = RefreshOk") (simp_all add: refresh_ok_iff)
    next
      case (2 b)
      from refresh_articles_settled [OF step [unfolded e] 2 ok] show ?thesis
        by (simp add: refresh_ok_iff)
    next
      case 3
      from refresh_stats_settled [OF step [unfolded e] 3 ok] show ?thesis
        by (simp add: refresh_ok_iff)
    qed
  next
    case False
    then have n: "\<forall>i r. e = Respond i r \<longrightarrow> \<not> refresh_step (snd (inflight w ! i))" by blast
    from refresh_other [OF step \<open>e \<noteq> ClickRefresh\<close> n] ok show ?thesis
      by (simp add: refresh_ok_iff)
  qed
qed

lemma reachable_refresh_ok:
  assumes "run es world0 = Some w"
  shows "refresh_ok w"
proof -
  have "refresh_ok w0 \<Longrightarrow> run es w0 = Some w \<Longrightarrow> refresh_ok w" for w0
  proof (induction es arbitrary: w0)
    case Nil
    then show ?case by simp
  next
    case (Cons e es)
    from Cons.prems(2) obtain w1 where s: "step e w0 = Some w1" and r: "run es w1 = Some w"
      by (auto split: option.splits)
    from step_refresh_ok [OF Cons.prems(1) s] r show ?case by (rule Cons.IH)
  qed
  moreover have "refresh_ok world0"
    by (simp add: refresh_ok_def refresh_pending_def world0_def)
  ultimately show ?thesis using assms by blast
qed

lemma manual_refresh_uninterrupted:
  assumes live: "phase w = Live" and nr: "\<not> refreshing (st w)"
    and r2: "r2 = Failed \<or> r2 = ArticlesOk d" and r3: "r3 = Failed \<or> r3 = StatsOk t"
  shows "\<exists>w1 w2 w3 w4.
       step ClickRefresh w = Some w1
     \<and> snd (inflight w1 ! length (inflight w)) = AwaitRefresh (st w)
     \<and> step (Respond (length (inflight w)) RefreshOk) w1 = Some w2
     \<and> snd (inflight w2 ! length (inflight w)) = AwaitArticles True FromRefresh
     \<and> step (Respond (length (inflight w)) r2) w2 = Some w3
     \<and> snd (inflight w3 ! length (inflight w)) = AwaitStats FromRefresh
     \<and> step (Respond (length (inflight w)) r3) w3 = Some w4
     \<and> sent w4 = sent w @ [PostRefresh, GetArticles (build_params True (st w)), GetStats]"
proof -
  let ?n = "length (inflight w)"
  define w1 where "w1 = handleRefresh w"
  have s1: "st w1 = (st w)\<lparr>refreshing := True\<rparr>" "phase w1 = Live"
    "inflight w1 = inflight w @ [(PostRefresh, AwaitRefresh (st w))]"
    "sent w1 = sent w @ [PostRefresh]"
    by (simp_all add: w1_def handleRefresh_def live)
  have "rerender (st w) w1 = w1" by (rule rerender_same) (simp add: s1)
  then have e1: "step ClickRefresh w = Some w1"
    using live nr by (simp add: refresh_disabled_def handle_def w1_def)
  define w2 where "w2 = rerender (st w1)
     (call_fetchArticles True FromRefresh (st w) (w1\<lparr>inflight := inflight w\<rparr>))"
  have e2: "step (Respond ?n RefreshOk) w1 = Some w2" by (simp add: s1 w2_def)
  have s2: "st w2 = (st w)\<lparr>refreshing := True, loading := True, page := 1\<rparr>"
    "phase w2 = Live"
    "inflight w2 = inflight w @ [(GetArticles (build_params True (st w)), AwaitArticles True FromRefresh)]"
    "sent w2 = sent w1 @ [GetArticles (build_params True (st w))]"
    by (simp_all add: w2_def st_rerender inflight_rerender inflight_commit sent_rerender
        sent_commit s1)
  define w5 where "w5 = upd (\<lambda>s. s\<lparr>console := console s @ [''Error refreshing:''],
     refreshing := False\<rparr>) (w1\<lparr>inflight := inflight w\<rparr>)"
  have "rerender (st w1) w5 = w5" by (rule rerender_same) (simp add: w5_def)
  then have e5: "step (Respond ?n Failed) w1 = Some w5" by (simp add: s1 w5_def)
  have s5: "\<not> refreshing (st w5)" "sent w5 = sent w1" by (simp_all add: w5_def)
  from r2 obtain o2 where o2: "resume (AwaitArticles True FromRefresh) r2 (w2\<lparr>inflight := inflight w\<rparr>)
     = Some (after_articles FromRefresh (upd (fetchArticles_settle True o2) (w2\<lparr>inflight := inflight w\<rparr>)))"
    by auto
  define w3 where "w3 = after_articles FromRefresh
     (upd (fetchArticles_settle True o2) (w2\<lparr>inflight := inflight w\<rparr>))"
  have "rerender (st w2) w3 = w3" by (rule rerender_same) (simp add: w3_def)
  then have e3: "step (Respond ?n r2) w2 = Some w3"
    using o2 by (simp add: s2 w3_def del: resume.simps)
  have s3: "refreshing (st w3)" "phase w3 = Live"
    "inflight w3 = inflight w @ [(GetStats, AwaitStats FromRefresh)]"
    "sent w3 = sent w2 @ [GetStats]"
    by (simp_all add: w3_def s2)
  from r3 obtain o3 where o3: "resume (AwaitStats FromRefresh) r3 (w3\<lparr>inflight := inflight w\<rparr>)
     = Some (finish_refresh FromRefresh (upd (fetchStats_settle o3) (w3\<lparr>inflight := inflight w\<rparr>)))"
    by auto
  define w4 where "w4 = finish_refresh FromRefresh
     (upd (fetchStats_settle o3) (w3\<lparr>inflight := inflight w\<rparr>))"
  have "rerender (st w3) w4 = w4" by (rule rerender_same) (simp add: w4_def)
  then have e4: "step (Respond ?n r3) w3 = Some w4"
    using o3 by (simp add: s3 w4_def del: resume.simps)
  have s4: "\<not> refreshing (st w4)" "sent w4 = sent w3" by (simp_all add: w4_def)
  show ?thesis
    apply (rule exI [of _ w1], rule exI [of _ w2], rule exI [of _ w3], rule exI [of _ w4])
    using e1 e2 e3 e4 s4
    by (simp add: s1 s2 s3 del: step.simps)
qed

lemma reach_page1_from_start:
  "run [Mount, Respond 0 (SourcesOk [sample_source]), Respond 0 (StatsOk sample_stats),
        Respond 0 (ArticlesOk (page_of 20))] world0 = Some world_page1"
proof -
  have "run ([Mount] @ [Respond 0 (SourcesOk [sample_source]), Respond 0 (StatsOk sample_stats),
        Respond 0 (ArticlesOk (page_of 20))]) world0 = Some world_page1"
    unfolding run_append using reach_page1 by (simp add: reach_mounted del: step.simps)
  then show ?thesis by (simp del: step.simps run.simps)
qed

lemma run_snoc: "run es w0 = Some w \<Longrightarrow> step e w = Some w' \<Longrightarrow> run (es @ [e]) w0 = Some w'"
  by (simp add: run_append del: step.simps)

text \<open>Which render the callback of the live interval closed over.\<close>

lemma rerender_same_page_timers:
  assumes "(selectedSource (st x) = selectedSource prev \<and> selectedHours (st x) = selectedHours prev)
      \<or> page (st x) = page prev"
    and "page (st (rerender prev x)) = page prev"
  shows "timers (rerender prev x) = timers x"
proof -
  from assms have p: "page (st x) = page prev" by (auto simp add: st_rerender)
  with assms(2) have "page (st (commit prev x)) = page (st x)" by (simp add: page_rerender)
  with p show ?thesis by (simp add: rerender_def timers_commit)
qed

lemma commit_restart:
  assumes "live_timer x p" and "page (st x) \<noteq> page prev"
  shows "timers (commit prev x) = [(next_timer x, POLL_MS, st x)]"
proof -
  from assms(1) obtain i cl where "timers x = [(i, POLL_MS, cl)]" "interval x = Some i"
    by (auto simp add: live_timer_iff)
  with assms(2) show ?thesis by (simp add: timers_commit)
qed

lemma commit_no_restart:
  "page (st x) = page prev \<Longrightarrow> timers (commit prev x) = timers x"
  by (simp add: timers_commit)

lemma rerender_fresh_closure:
  assumes "live_timer x p" and "page (st (rerender prev x)) \<noteq> page prev"
  shows "\<exists>i cl. timers (rerender prev x) = [(i, POLL_MS, cl)]
     \<and> fetchArticles_deps cl = fetchArticles_deps (st (rerender prev x))"
proof -
  let ?y = "commit prev x"
  from live_timer_commit [OF assms(1), of prev]
  have ly: "live_timer ?y (if page (st x) \<noteq> page prev then page (st x) else p)" .
  have st': "st (rerender prev x) = st ?y" by (simp add: st_rerender st_commit)
  show ?thesis
  proof (cases "page (st ?y) = page (st x)")
    case False
    from commit_restart [OF ly False]
    have "timers (rerender prev x) = [(next_timer ?y, POLL_MS, st ?y)]"
      by (simp add: rerender_def)
    then show ?thesis unfolding st' by blast
  next
    case True
    with assms(2) have ne: "page (st x) \<noteq> page prev" by (simp add: st')
    from commit_no_restart [of ?y "st x"] True
    have "timers (rerender prev x) = timers ?y" by (simp add: rerender_def)
    with commit_restart [OF assms(1) ne]
    have t: "timers (rerender prev x) = [(next_timer x, POLL_MS, st x)]" by simp
    have "st ?y = st x \<or> st ?y = (st x)\<lparr>loading := True, page := 1\<rparr>"
      by (simp add: st_commit)
    with True have "fetchArticles_deps (st x) = fetchArticles_deps (st ?y)"
      by (auto simp add: fetchArticles_deps_def)
    with t show ?thesis unfolding st' by blast
  qed
qed

lemma resume_filters:
  assumes "resume k r w0 = Some w1"
  shows "selectedSource (st w1) = selectedSource (st w0)"
    and "selectedHours (st w1) = selectedHours (st w0)"
  using assms
  by (cases k; cases r; auto simp add: fetchArticles_settle_def fetchStats_settle_def
      fetchSources_settle_def finish_refresh_def split: caller.splits)+

lemma step_Live_world:
  assumes "step e w = Some w'" and "phase w = Live" and "e \<noteq> Unmount"
  obtains x where "w' = rerender (st w) x" and "timers x = timers w"
    and "interval x = interval w"
    and "(selectedSource (st x) = selectedSource (st w)
          \<and> selectedHours (st x) = selectedHours (st w)) \<or> page (st x) = page (st w)"
proof (cases e)
  case Mount
  with assms(1,2) show ?thesis by simp
next
  case Unmount
  with assms(3) show ?thesis by simp
next
  case (SelectSource v)
  with assms(1) have "w' = rerender (st w) (upd (\<lambda>s. s\<lparr>selectedSource := v\<rparr>) w)"
    by (auto simp add: handle_def split: if_splits)
  then show ?thesis by (rule that) simp_all
next
  case (SelectHours v)
  with assms(1) have "w' = rerender (st w) (upd (\<lambda>s. s\<lparr>selectedHours := v\<rparr>) w)"
    by (auto simp add: handle_def split: if_splits)
  then show ?thesis by (rule that) simp_all
next
  case (TypeSearch v)
  with assms(1) have "w' = rerender (st w) (upd (\<lambda>s. s\<lparr>searchTerm := v\<rparr>) w)"
    by (auto simp add: handle_def split: if_splits)
  then show ?thesis by (rule that) simp_all
next
  case SubmitSearch
  with assms(1) have "w' = rerender (st w) (handleSearch w)"
    by (auto simp add: handle_def split: if_splits)
  then show ?thesis by (rule that) (simp_all add: handleSearch_def)
next
  case ClickLoadMore
  with assms(1) have "w' = rerender (st w) (upd (loadMore (st w)) w)"
    by (auto simp add: handle_def split: if_splits)
  then show ?thesis by (rule that) (simp_all add: loadMore_def)
next
  case ClickRefresh
  with assms(1) have "w' = rerender (st w) (handleRefresh w)"
    by (auto simp add: handle_def split: if_splits)
  then show ?thesis by (rule that) (simp_all add: handleRefresh_def)
next
  case (Tick i)
  with assms(1) obtain ms cl where "w' = rerender (st w) (tick cl w)"
    by (auto simp add: handle_def split: option.splits)
  then show ?thesis by (rule that) (simp_all add: tick_def Let_def)
next
  case (Respond i r)
  from assms(1) obtain w1 where
    r: "resume (snd (inflight w ! i)) r (w\<lparr>inflight := remove_nth i (inflight w)\<rparr>) = Some w1"
    and w': "w' = rerender (st w) w1"
    unfolding Respond by (rule step_Respond_world)
  from w' show ?thesis
    by (rule that) (use resume_timers [OF r] resume_filters [OF r] in simp_all)
qed

lemma step_fresh_closure:
  assumes "timer_ok w" and "phase w = Live" and "step e w = Some w'"
    and "page (st w') \<noteq> page (st w)"
  shows "\<exists>i cl. timers w' = [(i, POLL_MS, cl)]
     \<and> fetchArticles_deps cl = fetchArticles_deps (st w')"
proof -
  from assms(2,3,4) have "e \<noteq> Unmount" by (auto split: if_splits)
  with assms(3,2) obtain x where w': "w' = rerender (st w) x"
    and "timers x = timers w" "interval x = interval w"
    by (rule step_Live_world)
  with assms(1,2) have "live_timer x (page (st w))"
    by (simp add: timer_ok_def live_timer_iff)
  from rerender_fresh_closure [OF this] assms(4) show ?thesis by (simp add: w')
qed

lemma step_same_page_timers:
  assumes "phase w = Live" and "step e w = Some w'" and "page (st w') = page (st w)"
    and "e \<noteq> Unmount"
  shows "timers w' = timers w"
proof -
  from assms(2,1,4) obtain x where w': "w' = rerender (st w) x" and t: "timers x = timers w"
    and d: "(selectedSource (st x) = selectedSource (st w)
          \<and> selectedHours (st x) = selectedHours (st w)) \<or> page (st x) = page (st w)"
    by (rule step_Live_world)
  from rerender_same_page_timers [OF d] assms(3) t show ?thesis by (simp add: w')
qed

lemma tick_world:
  assumes "map_of (timers w) i = Some (ms, cl)" and "page cl = page (st w)"
  shows "step (Tick i) w = Some (tick cl w)"
proof -
  have "fetchArticles_deps (st (tick cl w)) = fetchArticles_deps (st w)"
    using assms(2) by (simp add: tick_def Let_def fetchArticles_deps_def)
  then have "handle (tick cl) w = tick cl w" by (simp add: handle_def rerender_same)
  with assms(1) show ?thesis by simp
qed

lemma step_Respond_stats:
  assumes "phase w = Live" and "i < length (inflight w)"
    and "snd (inflight w ! i) = AwaitStats Direct"
  shows "step (Respond i (StatsOk d)) w =
     Some (upd (fetchStats_settle (Resolved d)) (w\<lparr>inflight := remove_nth i (inflight w)\<rparr>))"
proof -
  let ?w1 = "upd (fetchStats_settle (Resolved d)) (w\<lparr>inflight := remove_nth i (inflight w)\<rparr>)"
  have "fetchArticles_deps (st ?w1) = fetchArticles_deps (st w)" by simp
  then have "rerender (st w) ?w1 = ?w1" by (rule rerender_same)
  with assms show ?thesis by (simp add: finish_refresh_def)
qed

lemma tick_effects:
  assumes "phase w = Live" and "map_of (timers w) i = Some (ms, cl)"
    and "page cl = page (st w)"
  shows "\<exists>w'. step (Tick i) w = Some w'
     \<and> issued (Tick i) w =
         GetStats # (if page (st w) = 1 then [GetArticles (build_params True cl)] else [])
     \<and> inflight w' = inflight w @ (GetStats, AwaitStats Direct)
         # (if page (st w) = 1
            then [(GetArticles (build_params True cl), AwaitArticles True Direct)] else [])
     \<and> st w' = (if page (st w) = 1 then (st w)\<lparr>loading := True, page := 1\<rparr> else st w)
     \<and> (\<forall>t. \<exists>w''. step (Respond (length (inflight w)) (StatsOk t)) w' = Some w''
          \<and> stats (st w'') = Some t)
     \<and> (page (st w) = 1 \<longrightarrow>
          (\<forall>d. \<exists>w''. step (Respond (Suc (length (inflight w))) (ArticlesOk d)) w' = Some w''
             \<and> articles (st w'') = data_articles d
             \<and> totalArticles (st w'') = data_total d
             \<and> hasMore (st w'') = (length (data_articles d) = 20)))"
proof -
  let ?n = "length (inflight w)"
  define w' where "w' = tick cl w"
  have e: "step (Tick i) w = Some w'" unfolding w'_def using assms(2,3) by (rule tick_world)
  have infl: "inflight w' = inflight w @ (GetStats, AwaitStats Direct)
         # (if page (st w) = 1
            then [(GetArticles (build_params True cl), AwaitArticles True Direct)] else [])"
    and snt: "sent w' = sent w @ GetStats
         # (if page (st w) = 1 then [GetArticles (build_params True cl)] else [])"
    and st': "st w' = (if page (st w) = 1 then (st w)\<lparr>loading := True, page := 1\<rparr> else st w)"
    and live: "phase w' = Live"
    using assms(1,3) by (simp_all add: w'_def tick_def Let_def)
  have iss: "issued (Tick i) w =
         GetStats # (if page (st w) = 1 then [GetArticles (build_params True cl)] else [])"
    unfolding issued_def e by (simp add: snt)
  have n: "?n < length (inflight w')" "snd (inflight w' ! ?n) = AwaitStats Direct"
    by (simp_all add: infl)
  have s: "\<forall>t. \<exists>w''. step (Respond ?n (StatsOk t)) w' = Some w'' \<and> stats (st w'') = Some t"
  proof
    fix t
    from step_Respond_stats [OF live n, of t]
    show "\<exists>w''. step (Respond ?n (StatsOk t)) w' = Some w'' \<and> stats (st w'') = Some t"
      by (simp add: fetchStats_settle_def del: step.simps)
  qed
  have a: "page (st w) = 1 \<longrightarrow>
          (\<forall>d. \<exists>w''. step (Respond (Suc ?n) (ArticlesOk d)) w' = Some w''
             \<and> articles (st w'') = data_articles d
             \<and> totalArticles (st w'') = data_total d
             \<and> hasMore (st w'') = (length (data_articles d) = 20))"
  proof (intro impI allI)
    fix d
    assume p: "page (st w) = 1"
    then have "Suc ?n < length (inflight w')"
      "snd (inflight w' ! Suc ?n) = AwaitArticles True Direct"
      by (simp_all add: infl nth_append)
    from step_Respond_articles [OF live this, of d]
    show "\<exists>w''. step (Respond (Suc ?n) (ArticlesOk d)) w' = Some w''
             \<and> articles (st w'') = data_articles d
             \<and> totalArticles (st w'') = data_total d
             \<and> hasMore (st w'') = (length (data_articles d) = 20)"
      by (simp add: fetchArticles_settle_def del: step.simps)
  qed
  from e iss infl st' s a show ?thesis by blast
qed

lemma phase_mount: "phase (mount w) = phase w"
  by (simp add: mount_def Let_def interval_effect_def setInterval_def filter_effect_def
      page_effect_def initial_load_effect_def call_fetchSources_def)

section \<open>The claims\<close>

text \<open>
  C2. After every successful articles fetch, \<^verbatim>\<open>hasMore\<close> (the flag "more pages
  available") is true if and only if the returned page has exactly 20 articles: a
  shorter page sets it false, a page of 20 sets it true.
\<close>

theorem hasMore_after_fetch:
  assumes "step (Respond i (ArticlesOk d)) w = Some w'"
  shows "hasMore (st w') = (length (data_articles d) = 20)"
proof -
  let ?w0 = "w\<lparr>inflight := remove_nth i (inflight w)\<rparr>"
  from assms obtain w1 where r: "resume (snd (inflight w ! i)) (ArticlesOk d) ?w0 = Some w1"
    and w': "w' = rerender (st w) w1"
    by (auto split: if_splits option.splits)
  from resume_articles_ok [OF r] obtain b c where
    w1: "w1 = after_articles c (upd (fetchArticles_settle b (Resolved d)) ?w0)" by blast
  have "fetchArticles_deps (st w1) = fetchArticles_deps (st w)"
    by (simp add: w1)
  then have "w' = w1" by (simp add: w' rerender_same)
  then show ?thesis by (simp add: w1 fetchArticles_settle_def)
qed

theorem hasMore_after_fetch_witness:
  "step (Respond 0 (ArticlesOk (page_of 20))) world_page2_pending = Some world_page2
   \<and> hasMore (st world_page2) = (length (data_articles (page_of 20)) = 20)"
  using hasMore_after_fetch [OF reach_page2] reach_page2 by simp

text \<open>
  C5. When the articles request is rejected, the loading indicator is cleared and the
  displayed list, the total count and \<^verbatim>\<open>hasMore\<close> keep the values they had before the
  call; the state changes in nothing else but the message on the console. The last
  three conjuncts are about the part of the call before the request.
\<close>

theorem rejected_fetch_keeps_list:
  assumes "phase w = Live" and "i < length (inflight w)"
    and "snd (inflight w ! i) = AwaitArticles b c"
  shows "\<exists>w'. step (Respond i Failed) w = Some w'
     \<and> st w' = (st w)\<lparr>console := console (st w) @ [''Error fetching articles:''],
                      loading := False\<rparr>
     \<and> \<not> loading (st w') \<and> articles (st w') = articles (st w)
     \<and> totalArticles (st w') = totalArticles (st w) \<and> hasMore (st w') = hasMore (st w)
     \<and> articles (fst (fetchArticles_begin b cl s)) = articles s
     \<and> totalArticles (fst (fetchArticles_begin b cl s)) = totalArticles s
     \<and> hasMore (fst (fetchArticles_begin b cl s)) = hasMore s"
proof -
  let ?w0 = "w\<lparr>inflight := remove_nth i (inflight w)\<rparr>"
  let ?w1 = "after_articles c (upd (fetchArticles_settle b Rejected) ?w0)"
  have "fetchArticles_deps (st ?w1) = fetchArticles_deps (st w)" by simp
  then have "rerender (st w) ?w1 = ?w1" by (rule rerender_same)
  with assms have "step (Respond i Failed) w = Some ?w1" by simp
  moreover have "st ?w1 = (st w)\<lparr>console := console (st w) @ [''Error fetching articles:''],
                      loading := False\<rparr>"
    by (simp add: fetchArticles_settle_def)
  ultimately show ?thesis by (simp add: fetchArticles_begin_def)
qed

theorem rejected_fetch_keeps_list_witness:
  "phase world_page2_pending = Live \<and> 0 < length (inflight world_page2_pending)
   \<and> snd (inflight world_page2_pending ! 0) = AwaitArticles False Direct
   \<and> (\<exists>w'. step (Respond 0 Failed) world_page2_pending = Some w'
        \<and> \<not> loading (st w') \<and> articles (st w') = replicate 20 sample_article
        \<and> totalArticles (st w') = 57 \<and> hasMore (st w')
        \<and> console (st w') = [''Error fetching articles:''])"
proof -
  have h: "phase world_page2_pending = Live" "0 < length (inflight world_page2_pending)"
    "snd (inflight world_page2_pending ! 0) = AwaitArticles False Direct"
    by (simp_all add: world_page2_pending_def)
  have s: "st world_page2_pending = state_page1\<lparr>page := 2\<rparr>"
    by (simp add: world_page2_pending_def)
  from rejected_fetch_keeps_list [OF h, of state_page1 state_page1] obtain w' where
    "step (Respond 0 Failed) world_page2_pending = Some w'"
    "st w' = (st world_page2_pending)\<lparr>console := console (st world_page2_pending) @ [''Error fetching articles:''],
                      loading := False\<rparr>" by blast
  then show ?thesis using h by (simp add: s)
qed

text \<open>
  C8. The query has the fields \<^verbatim>\<open>page\<close> and \<^verbatim>\<open>per_page\<close> (always 20), then \<^verbatim>\<open>hours\<close>
  unless the window is \<^verbatim>\<open>all\<close>, \<^verbatim>\<open>source\<close> unless the source is \<^verbatim>\<open>all\<close>, \<^verbatim>\<open>search\<close>
  unless the text is empty, each with the value of the state (the hours as the number
  that \<^verbatim>\<open>parseInt\<close> reads from the item of the select), and no other field.
\<close>

theorem build_params_fields:
  "build_params isNewSearch cl =
     [(''page'', Num (if isNewSearch then 1 else int (page cl))), (''per_page'', Num 20)]
     @ (if selectedHours cl = ''all'' then [] else [(''hours'', parseInt (selectedHours cl))])
     @ (if selectedSource cl = ''all'' then [] else [(''source'', Str (selectedSource cl))])
     @ (if searchTerm cl = [] then [] else [(''search'', Str (searchTerm cl))])
   \<and> map parseInt (filter (\<lambda>h. h \<noteq> ''all'') hours_options) = map Num [1, 6, 24, 72, 168]"
  by (simp add: build_params_def params_literal_def hours_options_def parseInt_options)

theorem build_params_fields_witness:
  "build_params False (state_page1\<lparr>page := 2, selectedSource := ''hackernews'', searchTerm := ''rust''\<rparr>) =
     [(''page'', Num 2), (''per_page'', Num 20), (''hours'', Num 24),
      (''source'', Str ''hackernews''), (''search'', Str ''rust'')]
   \<and> build_params True (state_page1\<lparr>page := 2, selectedHours := ''all''\<rparr>) =
     [(''page'', Num 1), (''per_page'', Num 20)]"
  using build_params_fields [of False "state_page1\<lparr>page := 2, selectedSource := ''hackernews'', searchTerm := ''rust''\<rparr>"]
    build_params_fields [of True "state_page1\<lparr>page := 2, selectedHours := ''all''\<rparr>"]
  by (simp add: parseInt_options)

text \<open>
  C10. The field \<^verbatim>\<open>search\<close> is left out of the query exactly when the search text is
  the empty string; any other text, white space included, is sent as it is.
\<close>

theorem search_field_verbatim:
  "filter (\<lambda>kv. fst kv = ''search'') (build_params isNewSearch cl) =
     (if searchTerm cl = [] then [] else [(''search'', Str (searchTerm cl))])"
  by (simp add: build_params_def params_literal_def)

theorem search_field_verbatim_witness:
  "filter (\<lambda>kv. fst kv = ''search'') (build_params True (initial_state\<lparr>searchTerm := ''  ''\<rparr>))
     = [(''search'', Str ''  '')]
   \<and> filter (\<lambda>kv. fst kv = ''search'') (build_params True initial_state) = []"
  using search_field_verbatim [of True "initial_state\<lparr>searchTerm := ''  ''\<rparr>"]
    search_field_verbatim [of True initial_state]
  by simp

text \<open>
  C9. A replace-fetch changes the state before its request settles: when the request
  fails, the page has been set to 1 all the same, while the displayed list, the total
  count and \<^verbatim>\<open>hasMore\<close> are those of before. Shown on the replace-fetch of a submitted
  search, and (the last two conjuncts) on the two parts of \<^verbatim>\<open>fetchArticles(true)\<close>.
\<close>

theorem failed_replace_fetch_resets_page:
  assumes "phase w = Live"
  shows "\<exists>w1 w2. step SubmitSearch w = Some w1
     \<and> step (Respond (length (inflight w)) Failed) w1 = Some w2
     \<and> page (st w1) = 1 \<and> page (st w2) = 1 \<and> \<not> loading (st w2)
     \<and> articles (st w2) = articles (st w) \<and> totalArticles (st w2) = totalArticles (st w)
     \<and> hasMore (st w2) = hasMore (st w)
     \<and> page (fst (fetchArticles_begin True cl s)) = 1
     \<and> page (fetchArticles_settle True Rejected s) = page s"
proof -
  let ?w1 = "handle handleSearch w"
  let ?n = "length (inflight w)"
  let ?w2 = "upd (fetchArticles_settle True Rejected) (?w1\<lparr>inflight := remove_nth ?n (inflight ?w1)\<rparr>)"
  have a: "step SubmitSearch w = Some ?w1" using assms by simp
  have "phase ?w1 = Live" "?n < length (inflight ?w1)"
    "snd (inflight ?w1 ! ?n) = AwaitArticles True Direct"
    using assms by (simp_all add: handleSearch_world)
  then have b: "step (Respond ?n Failed) ?w1 = Some ?w2" by (rule step_Respond_failed)
  have "st ?w2 = fetchArticles_settle True Rejected ((st w)\<lparr>loading := True, page := 1\<rparr>)"
    by (simp add: handleSearch_world)
  then have c: "page (st ?w2) = 1 \<and> \<not> loading (st ?w2)
     \<and> articles (st ?w2) = articles (st w) \<and> totalArticles (st ?w2) = totalArticles (st w)
     \<and> hasMore (st ?w2) = hasMore (st w)"
    by (simp add: fetchArticles_settle_def)
  have d: "page (st ?w1) = 1" by (simp add: handleSearch_world)
  have e: "page (fst (fetchArticles_begin True cl s)) = 1
     \<and> page (fetchArticles_settle True Rejected s) = page s"
    by (simp add: fetchArticles_begin_def fetchArticles_settle_def)
  from a b c d e show ?thesis by blast
qed

theorem failed_replace_fetch_resets_page_witness:
  "phase world_page2 = Live \<and> page (st world_page2) = 2
   \<and> (\<exists>w1 w2. step SubmitSearch world_page2 = Some w1
        \<and> step (Respond (length (inflight world_page2)) Failed) w1 = Some w2
        \<and> page (st w2) = 1 \<and> articles (st w2) = replicate 40 sample_article
        \<and> totalArticles (st w2) = 57 \<and> hasMore (st w2))"
proof -
  have h: "phase world_page2 = Live"
    by (simp add: world_page2_def world_page2_pending_def)
  have s: "st world_page2 = state_page1\<lparr>page := 2, articles := replicate 40 sample_article\<rparr>"
    by (simp add: world_page2_def)
  have p: "page (st world_page2) = 2" "articles (st world_page2) = replicate 40 sample_article"
    "totalArticles (st world_page2) = 57" "hasMore (st world_page2)"
    by (simp_all add: s)
  from failed_replace_fetch_resets_page [OF h, of state_page1 state_page1]
  obtain w1 w2 where "step SubmitSearch world_page2 = Some w1"
    "step (Respond (length (inflight world_page2)) Failed) w1 = Some w2"
    "page (st w2) = 1" "articles (st w2) = articles (st world_page2)"
    "totalArticles (st w2) = totalArticles (st world_page2)"
    "hasMore (st w2) = hasMore (st world_page2)"
    by blast
  with h p show ?thesis by (simp del: step.simps)
qed

text \<open>
  C3. A click on the button of \<^verbatim>\<open>loadMore\<close> adds one to the page and sends exactly one
  request, which carries the new page number; when its page arrives, the articles are
  put after the displayed ones, in the order received and with no deduplication, so
  that the lengths add up (20 and 20 give 40).
\<close>

theorem loadMore_append_fetch:
  assumes "step ClickLoadMore w = Some w'" and "0 < page (st w)"
  shows "page (st w') = page (st w) + 1
     \<and> issued ClickLoadMore w = [GetArticles (build_params False (st w'))]
     \<and> map_of (build_params False (st w')) ''page'' = Some (Num (int (page (st w)) + 1))
     \<and> inflight w' = inflight w @ [(GetArticles (build_params False (st w')), AwaitArticles False Direct)]
     \<and> (\<exists>w''. step (Respond (length (inflight w)) (ArticlesOk d)) w' = Some w''
          \<and> articles (st w'') = articles (st w) @ data_articles d
          \<and> length (articles (st w'')) = length (articles (st w)) + length (data_articles d))
     \<and> articles (fetchArticles_settle False (Resolved d) s) = articles s @ data_articles d"
proof -
  let ?n = "length (inflight w)"
  from assms(1) have live: "phase w = Live" and shown: "loadMore_shown (st w)"
    and w': "w' = handle (upd (loadMore (st w))) w"
    by (auto split: if_splits)
  note lw = loadMore_world [OF shown assms(2), folded w']
  have st': "st w' = (st w)\<lparr>page := page (st w) + 1\<rparr>" by (rule lw)
  have a: "issued ClickLoadMore w = [GetArticles (build_params False (st w'))]"
    using assms(1) by (simp add: issued_def lw del: step.simps)
  have "phase w' = Live" "?n < length (inflight w')"
    "snd (inflight w' ! ?n) = AwaitArticles False Direct"
    using live by (simp_all add: lw)
  from step_Respond_articles [OF this, of d]
  have b: "\<exists>w''. step (Respond ?n (ArticlesOk d)) w' = Some w''
          \<and> articles (st w'') = articles (st w) @ data_articles d
          \<and> length (articles (st w'')) = length (articles (st w)) + length (data_articles d)"
    by (simp add: fetchArticles_settle_def st' del: step.simps)
  show ?thesis using a b by (simp add: lw fetchArticles_settle_def del: step.simps)
qed

theorem loadMore_append_fetch_witness:
  "step ClickLoadMore world_page1 = Some world_page2_pending \<and> 0 < page (st world_page1)
   \<and> page (st world_page2_pending) = 2
   \<and> issued ClickLoadMore world_page1 = [GetArticles (query_page 2)]
   \<and> length (articles (st world_page1)) = 20
   \<and> (\<exists>w''. step (Respond 0 (ArticlesOk (page_of 20))) world_page2_pending = Some w''
        \<and> length (articles (st w'')) = 40)"
proof -
  have p: "0 < page (st world_page1)" "articles (st world_page1) = replicate 20 sample_article"
    "inflight world_page1 = []"
    by (simp_all add: world_page1_def world_mounted_def)
  have q: "st world_page2_pending = state_page1\<lparr>page := 2\<rparr>"
    by (simp add: world_page2_pending_def)
  from loadMore_append_fetch [OF reach_page2_pending p(1), where d = "page_of 20"]
  obtain w'' where "issued ClickLoadMore world_page1 = [GetArticles (build_params False (st world_page2_pending))]"
    "step (Respond (length (inflight world_page1)) (ArticlesOk (page_of 20))) world_page2_pending = Some w''"
    "length (articles (st w'')) = length (articles (st world_page1)) + length (data_articles (page_of 20))"
    by blast
  with reach_page2_pending p show ?thesis
    by (simp add: q query_pageN page_of_def del: step.simps)
qed

lemma replace_fetch_when_idle:
  assumes "step e w = Some w'"
    and "e = SubmitSearch \<or> (set_filter e (st w) \<noteq> st w \<and> \<not> loading (st w))"
  shows "st w' = (set_filter e (st w))\<lparr>loading := True, page := 1\<rparr>
     \<and> page (st w') = 1
     \<and> take 1 (issued e w) = [GetArticles (build_params True (st w'))]
     \<and> map_of (build_params True (st w')) ''page'' = Some (Num 1)
     \<and> inflight w' ! length (inflight w)
         = (GetArticles (build_params True (st w')), AwaitArticles True Direct)
     \<and> (\<exists>w''. step (Respond (length (inflight w)) (ArticlesOk d)) w' = Some w''
          \<and> articles (st w'') = data_articles d)
     \<and> articles (fetchArticles_settle True (Resolved d) s) = data_articles d"
proof -
  let ?s = "set_filter e (st w)"
  have ps: "build_params True (?s\<lparr>loading := True, page := 1\<rparr>) = build_params True ?s"
    by simp
  have main: "phase w' = Live \<and> st w' = ?s\<lparr>loading := True, page := 1\<rparr>
     \<and> (\<exists>rest. inflight w' = inflight w @ (GetArticles (build_params True ?s), AwaitArticles True Direct) # rest)
     \<and> (\<exists>later. sent w' = sent w @ GetArticles (build_params True ?s) # later)"
  proof (cases e)
    case SubmitSearch
    with assms(1) have "phase w = Live" and "w' = handle handleSearch w"
      by (auto split: if_splits)
    then show ?thesis using SubmitSearch by (simp add: handleSearch_world)
  next
    case (SelectSource v)
    with assms have "phase w = Live" and w': "w' = rerender (st w) (w\<lparr>st := (st w)\<lparr>selectedSource := v\<rparr>\<rparr>)"
      and "\<not> loading (st w)" and "(st w)\<lparr>selectedSource := v\<rparr> \<noteq> st w"
      by (auto simp add: handle_def upd_def split: if_splits)
    moreover from this have "v \<noteq> selectedSource (st w)" by auto
    ultimately show ?thesis
      using select_world [of "(st w)\<lparr>selectedSource := v\<rparr>" w] SelectSource by simp
  next
    case (SelectHours v)
    with assms have "phase w = Live" and w': "w' = rerender (st w) (w\<lparr>st := (st w)\<lparr>selectedHours := v\<rparr>\<rparr>)"
      and "\<not> loading (st w)" and "(st w)\<lparr>selectedHours := v\<rparr> \<noteq> st w"
      by (auto simp add: handle_def upd_def split: if_splits)
    moreover from this have "v \<noteq> selectedHours (st w)" by auto
    ultimately show ?thesis
      using select_world [of "(st w)\<lparr>selectedHours := v\<rparr>" w] SelectHours by simp
  qed (use assms(2) in simp_all)
  then obtain rest later where "phase w' = Live" and st': "st w' = ?s\<lparr>loading := True, page := 1\<rparr>"
    and "inflight w' = inflight w @ (GetArticles (build_params True ?s), AwaitArticles True Direct) # rest"
    and "sent w' = sent w @ GetArticles (build_params True ?s) # later"
    by blast
  from replace_fetch_world [OF this(1) this(3) this(4) assms(1), of d] st' ps
  show ?thesis by (simp add: fetchArticles_settle_def del: step.simps)
qed

text \<open>
  C1, as amended. A submitted search always, and a change of the selected source or of
  the recency window made while \<^verbatim>\<open>loading\<close> is false, issues a replace-fetch: the
  page is set to 1, the first request that the event sends is the query of page 1 with
  the new filters, and when its page arrives the displayed list is the returned page,
  whatever was displayed. A change made while \<^verbatim>\<open>loading\<close> is true, in any world that
  a run of events reaches from the start, sends no request and only sets the filter (the
  effect of lines 132 to 136 is guarded by \<^verbatim>\<open>!loading\<close>, and the page is 1 whenever
  \<^verbatim>\<open>loading\<close> is true, so the effect of the page sends nothing either).
\<close>

theorem filter_change_replace_fetch:
  assumes "step e w = Some w'"
  shows "(e = SubmitSearch \<or> (set_filter e (st w) \<noteq> st w \<and> \<not> loading (st w)) \<longrightarrow>
       st w' = (set_filter e (st w))\<lparr>loading := True, page := 1\<rparr>
     \<and> page (st w') = 1
     \<and> take 1 (issued e w) = [GetArticles (build_params True (st w'))]
     \<and> map_of (build_params True (st w')) ''page'' = Some (Num 1)
     \<and> inflight w' ! length (inflight w)
         = (GetArticles (build_params True (st w')), AwaitArticles True Direct)
     \<and> (\<exists>w''. step (Respond (length (inflight w)) (ArticlesOk d)) w' = Some w''
          \<and> articles (st w'') = data_articles d)
     \<and> articles (fetchArticles_settle True (Resolved d) s) = data_articles d)
   \<and> (run es world0 = Some w \<and> set_filter e (st w) \<noteq> st w \<and> loading (st w) \<longrightarrow>
       issued e w = [] \<and> inflight w' = inflight w \<and> st w' = set_filter e (st w)
     \<and> page (st w) = 1)"
proof (intro conjI impI)
  assume "run es world0 = Some w \<and> set_filter e (st w) \<noteq> st w \<and> loading (st w)"
  then have r: "run es world0 = Some w" and c: "set_filter e (st w) \<noteq> st w"
    and l: "loading (st w)" by simp_all
  from reachable_loading_page [OF r] l have p: "page (st w) = 1" by simp
  from select_while_loading [OF assms c l p] p
  show "issued e w = []" "inflight w' = inflight w" "st w' = set_filter e (st w)"
    "page (st w) = 1" by simp_all
qed (use replace_fetch_when_idle [OF assms, of d s] in \<open>simp_all del: step.simps\<close>)

theorem filter_change_replace_fetch_witness:
  "set_filter (SelectHours ''6'') (st world_page2) \<noteq> st world_page2
   \<and> \<not> loading (st world_page2) \<and> page (st world_page2) = 2
   \<and> (\<exists>w'. step (SelectHours ''6'') world_page2 = Some w'
        \<and> page (st w') = 1 \<and> selectedHours (st w') = ''6''
        \<and> take 1 (issued (SelectHours ''6'') world_page2)
            = [GetArticles [(''page'', Num 1), (''per_page'', Num 20), (''hours'', Num 6)]]
        \<and> (\<exists>w''. step (Respond 0 (ArticlesOk (page_of 7))) w' = Some w''
             \<and> articles (st w'') = replicate 7 sample_article))
   \<and> run [Mount] world0 = Some world_mounted
   \<and> set_filter (SelectHours ''6'') (st world_mounted) \<noteq> st world_mounted
   \<and> loading (st world_mounted)
   \<and> (\<exists>w'. step (SelectHours ''6'') world_mounted = Some w'
        \<and> issued (SelectHours ''6'') world_mounted = [] \<and> selectedHours (st w') = ''6''
        \<and> inflight w' = inflight world_mounted)"
proof -
  let ?e = "SelectHours ''6''"
  have s: "st world_page2 = state_page1\<lparr>page := 2, articles := replicate 40 sample_article\<rparr>"
    "inflight world_page2 = []"
    by (simp_all add: world_page2_def)
  have e: "step ?e world_page2 = Some (handle (upd (\<lambda>s. s\<lparr>selectedHours := ''6''\<rparr>)) world_page2)"
    by (simp add: world_page2_def world_page2_pending_def hours_options_def)
  have "set_filter ?e (st world_page2) \<noteq> st world_page2"
  proof
    assume "set_filter ?e (st world_page2) = st world_page2"
    then have "selectedHours (set_filter ?e (st world_page2)) = selectedHours (st world_page2)"
      by (rule arg_cong)
    then show False by (simp add: s)
  qed
  moreover have "\<not> loading (st world_page2)" by (simp add: s)
  ultimately have c: "set_filter ?e (st world_page2) \<noteq> st world_page2 \<and> \<not> loading (st world_page2)" ..
  from filter_change_replace_fetch [OF e, where d = "page_of 7"] c
  have a: "page (st world_page2) = 2
   \<and> (\<exists>w'. step ?e world_page2 = Some w'
        \<and> page (st w') = 1 \<and> selectedHours (st w') = ''6''
        \<and> take 1 (issued ?e world_page2)
            = [GetArticles [(''page'', Num 1), (''per_page'', Num 20), (''hours'', Num 6)]]
        \<and> (\<exists>w''. step (Respond 0 (ArticlesOk (page_of 7))) w' = Some w''
             \<and> articles (st w'') = replicate 7 sample_article))"
    by (simp add: s e build_params_def params_literal_def parseInt_options page_of_def
        del: step.simps)
  have r: "run [Mount] world0 = Some world_mounted"
    by (simp add: reach_mounted del: step.simps)
  have m: "st world_mounted = initial_state" by (simp add: world_mounted_def)
  have e0: "step ?e world_mounted
      = Some (handle (upd (\<lambda>s. s\<lparr>selectedHours := ''6''\<rparr>)) world_mounted)"
    by (simp add: world_mounted_def hours_options_def)
  have "set_filter ?e (st world_mounted) \<noteq> st world_mounted"
  proof
    assume "set_filter ?e (st world_mounted) = st world_mounted"
    then have "selectedHours (set_filter ?e (st world_mounted)) = selectedHours (st world_mounted)"
      by (rule arg_cong)
    then show False by (simp add: m)
  qed
  moreover have "loading (st world_mounted)" by (simp add: m)
  ultimately have c0: "run [Mount] world0 = Some world_mounted
     \<and> set_filter ?e (st world_mounted) \<noteq> st world_mounted \<and> loading (st world_mounted)"
    using r by blast
  from filter_change_replace_fetch [OF e0, where es = "[Mount]"] c0
  have b: "issued ?e world_mounted = []"
    "inflight (handle (upd (\<lambda>s. s\<lparr>selectedHours := ''6''\<rparr>)) world_mounted) = inflight world_mounted"
    "st (handle (upd (\<lambda>s. s\<lparr>selectedHours := ''6''\<rparr>)) world_mounted)
       = set_filter ?e (st world_mounted)"
    by blast+
  from a b c c0 e0 show ?thesis by (simp del: step.simps run.simps)
qed

text \<open>
  C1 as stated fails while a replace-fetch is loading: right after mount, choosing the
  window of 6 hours changes the filter and sends no request.
\<close>

theorem filter_change_while_loading_counterexample:
  "loading (st world_mounted) \<and> selectedHours (st world_mounted) = ''24''
   \<and> step (SelectHours ''6'') world_mounted
       = Some (world_mounted\<lparr>st := initial_state\<lparr>selectedHours := ''6''\<rparr>\<rparr>)
   \<and> issued (SelectHours ''6'') world_mounted = []"
  by (simp add: issued_def world_mounted_def hours_options_def eval_defs)

text \<open>
  C4. \<^verbatim>\<open>loadMore\<close> tests \<^verbatim>\<open>hasMore && !loading\<close>, and only a replace-fetch sets
  \<^verbatim>\<open>loading\<close>. In the world reached by mounting, receiving the first page and
  clicking once, the request of page 2 is in flight, \<^verbatim>\<open>loading\<close> is false and
  \<^verbatim>\<open>hasMore\<close> is true: a second click sets the page to 3 and sends the request of
  page 3 while the first append-fetch is outstanding.
\<close>

theorem loadMore_while_append_in_flight:
  "run [Mount, Respond 0 (SourcesOk [sample_source]), Respond 0 (StatsOk sample_stats),
        Respond 0 (ArticlesOk (page_of 20)), ClickLoadMore] world0 = Some world_page2_pending
   \<and> inflight world_page2_pending = [(GetArticles (query_page 2), AwaitArticles False Direct)]
   \<and> hasMore (st world_page2_pending) \<and> \<not> loading (st world_page2_pending)
   \<and> page (st world_page2_pending) = 2
   \<and> (\<exists>w'. step ClickLoadMore world_page2_pending = Some w' \<and> page (st w') = 3
        \<and> issued ClickLoadMore world_page2_pending = [GetArticles (query_page 3)]
        \<and> map snd (inflight w') = [AwaitArticles False Direct, AwaitArticles False Direct])"
proof -
  let ?w' = "handle (upd (loadMore (st world_page2_pending))) world_page2_pending"
  have s: "st world_page2_pending = state_page1\<lparr>page := 2\<rparr>" "phase world_page2_pending = Live"
    "inflight world_page2_pending = [(GetArticles (query_page 2), AwaitArticles False Direct)]"
    by (simp_all add: world_page2_pending_def)
  have shown: "loadMore_shown (st world_page2_pending)" "0 < page (st world_page2_pending)"
    by (simp_all add: s loadMore_shown_def)
  note lw = loadMore_world [OF shown]
  have e: "step ClickLoadMore world_page2_pending = Some ?w'"
    using shown s by simp
  have a: "page (st ?w') = 3" unfolding lw by (simp add: s)
  have b: "sent ?w' = sent world_page2_pending @ [GetArticles (query_page 3)]"
    unfolding lw by (simp add: s query_pageN)
  have c: "map snd (inflight ?w') = [AwaitArticles False Direct, AwaitArticles False Direct]"
    unfolding lw by (simp add: s)
  have "issued ClickLoadMore world_page2_pending = [GetArticles (query_page 3)]"
    unfolding issued_def e by (simp add: b)
  with a c e reach_page2_pending_from_start show ?thesis
    by (simp add: s del: step.simps run.simps)
qed

text \<open>
  C7, as amended. In every world that a run of events reaches from the start: the
  period of the polling interval is 5 minutes; while the component is mounted exactly
  one interval is live, and none before mount and after unmount; mounting starts one
  and unmounting clears it. A tick sends the request of the stats always, and the stats
  that arrive are stored; after it, exactly when the current page is 1, it calls
  \<^verbatim>\<open>fetchArticles(true)\<close>: the query of page 1 is sent, \<^verbatim>\<open>loading\<close> is set, and the page
  that arrives replaces the displayed list. The interval is not a single one: every
  event that changes the page clears it and starts a new one (the effect of lines 146 to
  155 depends on \<^verbatim>\<open>page\<close>), whose callback is of a render with the page, search text,
  source and window of that moment; an event that leaves the page as it was leaves the
  interval as it was, so the query of a tick is built from the render of the last
  change of page, or of mount.
\<close>

theorem poll_interval:
  assumes "run es world0 = Some w"
  shows "POLL_MS = 5 * 60 * 1000
     \<and> timer_ok w
     \<and> (phase w = Live \<longrightarrow> (\<exists>i cl. timers w = [(i, POLL_MS, cl)]))
     \<and> (phase w \<noteq> Live \<longrightarrow> timers w = [])
     \<and> (\<forall>i ms cl. timers w = [(i, ms, cl)] \<longrightarrow>
          ms = POLL_MS \<and> page cl = page (st w)
        \<and> (\<exists>w'. step (Tick i) w = Some w'
            \<and> issued (Tick i) w =
                GetStats # (if page (st w) = 1 then [GetArticles (build_params True cl)] else [])
            \<and> inflight w' = inflight w @ (GetStats, AwaitStats Direct)
                # (if page (st w) = 1
                   then [(GetArticles (build_params True cl), AwaitArticles True Direct)]
                   else [])
            \<and> st w' = (if page (st w) = 1 then (st w)\<lparr>loading := True, page := 1\<rparr> else st w)
            \<and> (\<forall>t. \<exists>w''. step (Respond (length (inflight w)) (StatsOk t)) w' = Some w''
                 \<and> stats (st w'') = Some t)
            \<and> (page (st w) = 1 \<longrightarrow>
                 (\<forall>d. \<exists>w''. step (Respond (Suc (length (inflight w))) (ArticlesOk d)) w'
                        = Some w''
                    \<and> articles (st w'') = data_articles d
                    \<and> totalArticles (st w'') = data_total d
                    \<and> hasMore (st w'') = (length (data_articles d) = 20)))))
     \<and> map_of (build_params True s) ''page'' = Some (Num 1)
     \<and> (\<forall>e w'. step e w = Some w' \<and> page (st w') \<noteq> page (st w) \<longrightarrow>
          next_timer w < next_timer w'
        \<and> (phase w = Live \<longrightarrow>
             (\<exists>i cl. timers w' = [(i, POLL_MS, cl)]
                \<and> fetchArticles_deps cl = fetchArticles_deps (st w'))))
     \<and> (\<forall>e w'. step e w = Some w' \<and> page (st w') = page (st w) \<and> phase w = Live
            \<and> e \<noteq> Unmount \<longrightarrow> timers w' = timers w)
     \<and> (\<forall>w'. step Mount w = Some w' \<longrightarrow> phase w' = Live \<and> length (timers w') = 1)
     \<and> (\<forall>w'. step Unmount w = Some w' \<longrightarrow> phase w' = Torn \<and> timers w' = [])"
proof -
  have ok: "timer_ok w" using timer_ok_world0 assms by (rule run_timer_ok)
  have a: "phase w \<noteq> Live \<longrightarrow> timers w = []"
    using ok by (cases "phase w") (simp_all add: timer_ok_def)
  have b: "phase w = Live \<longrightarrow> (\<exists>i cl. timers w = [(i, POLL_MS, cl)])"
    using ok by (auto simp add: timer_ok_def live_timer_iff)
  have c: "timers w = [(i, ms, cl)] \<longrightarrow>
          ms = POLL_MS \<and> page cl = page (st w)
        \<and> (\<exists>w'. step (Tick i) w = Some w'
            \<and> issued (Tick i) w =
                GetStats # (if page (st w) = 1 then [GetArticles (build_params True cl)] else [])
            \<and> inflight w' = inflight w @ (GetStats, AwaitStats Direct)
                # (if page (st w) = 1
                   then [(GetArticles (build_params True cl), AwaitArticles True Direct)]
                   else [])
            \<and> st w' = (if page (st w) = 1 then (st w)\<lparr>loading := True, page := 1\<rparr> else st w)
            \<and> (\<forall>t. \<exists>w''. step (Respond (length (inflight w)) (StatsOk t)) w' = Some w''
                 \<and> stats (st w'') = Some t)
            \<and> (page (st w) = 1 \<longrightarrow>
                 (\<forall>d. \<exists>w''. step (Respond (Suc (length (inflight w))) (ArticlesOk d)) w'
                        = Some w''
                    \<and> articles (st w'') = data_articles d
                    \<and> totalArticles (st w'') = data_total d
                    \<and> hasMore (st w'') = (length (data_articles d) = 20))))" for i ms cl
  proof
    assume t: "timers w = [(i, ms, cl)]"
    with a have live: "phase w = Live" by auto
    with ok t have m: "ms = POLL_MS" and p: "page cl = page (st w)"
      by (simp_all add: timer_ok_def live_timer_iff)
    from t have "map_of (timers w) i = Some (ms, cl)" by simp
    from tick_effects [OF live this p] m p show "ms = POLL_MS \<and> page cl = page (st w)
        \<and> (\<exists>w'. step (Tick i) w = Some w'
            \<and> issued (Tick i) w =
                GetStats # (if page (st w) = 1 then [GetArticles (build_params True cl)] else [])
            \<and> inflight w' = inflight w @ (GetStats, AwaitStats Direct)
                # (if page (st w) = 1
                   then [(GetArticles (build_params True cl), AwaitArticles True Direct)]
                   else [])
            \<and> st w' = (if page (st w) = 1 then (st w)\<lparr>loading := True, page := 1\<rparr> else st w)
            \<and> (\<forall>t. \<exists>w''. step (Respond (length (inflight w)) (StatsOk t)) w' = Some w''
                 \<and> stats (st w'') = Some t)
            \<and> (page (st w) = 1 \<longrightarrow>
                 (\<forall>d. \<exists>w''. step (Respond (Suc (length (inflight w))) (ArticlesOk d)) w'
                        = Some w''
                    \<and> articles (st w'') = data_articles d
                    \<and> totalArticles (st w'') = data_total d
                    \<and> hasMore (st w'') = (length (data_articles d) = 20))))"
      by blast
  qed
  have d: "step e w = Some w' \<and> page (st w') \<noteq> page (st w) \<longrightarrow>
          next_timer w < next_timer w'
        \<and> (phase w = Live \<longrightarrow>
             (\<exists>i cl. timers w' = [(i, POLL_MS, cl)]
                \<and> fetchArticles_deps cl = fetchArticles_deps (st w')))" for e w'
    using step_restarts [of e w w'] step_fresh_closure [OF ok, of e w'] by blast
  have f: "step e w = Some w' \<and> page (st w') = page (st w) \<and> phase w = Live
            \<and> e \<noteq> Unmount \<longrightarrow> timers w' = timers w" for e w'
    using step_same_page_timers [of w e w'] by blast
  have g: "step Mount w = Some w' \<longrightarrow> phase w' = Live \<and> length (timers w') = 1" for w'
  proof
    assume s: "step Mount w = Some w'"
    then have "phase w' = Live" by (auto simp add: phase_mount split: if_splits)
    moreover from step_timer_ok [OF ok s] have "timer_ok w'" .
    ultimately show "phase w' = Live \<and> length (timers w') = 1"
      by (auto simp add: timer_ok_def live_timer_iff)
  qed
  have h: "step Unmount w = Some w' \<longrightarrow> phase w' = Torn \<and> timers w' = []" for w'
  proof
    assume s: "step Unmount w = Some w'"
    then have "phase w' = Torn" by (auto split: if_splits)
    moreover from step_timer_ok [OF ok s] have "timer_ok w'" .
    ultimately show "phase w' = Torn \<and> timers w' = []" by (simp add: timer_ok_def)
  qed
  have k: "POLL_MS = 5 * 60 * 1000" by (simp add: POLL_MS_def)
  have l: "map_of (build_params True s) ''page'' = Some (Num 1)" by simp
  from k ok b a c l d f g h show ?thesis by blast
qed

theorem poll_interval_witness:
  "run [Mount] world0 = Some world_mounted \<and> POLL_MS = 300000
   \<and> timers world_mounted = [(0, 300000, initial_state)]
   \<and> issued (Tick 0) world_mounted = [GetStats, GetArticles (query_page 1)]
   \<and> (\<exists>w'. step (Tick 0) world_mounted = Some w'
        \<and> (\<exists>w''. step (Respond 3 (StatsOk sample_stats)) w' = Some w''
              \<and> stats (st w'') = Some sample_stats)
        \<and> (\<exists>w''. step (Respond 4 (ArticlesOk (page_of 7))) w' = Some w''
              \<and> articles (st w'') = replicate 7 sample_article))
   \<and> issued (Tick 1) world_page2_pending = [GetStats]
   \<and> (\<exists>w6. step (SelectHours ''6'') world_page1 = Some w6 \<and> selectedHours (st w6) = ''6''
        \<and> timers w6 = timers world_page1
        \<and> issued (Tick 0) w6 = [GetStats, GetArticles (query_page 1)])
   \<and> (\<exists>w. run [Mount, Unmount] world0 = Some w \<and> phase w = Torn \<and> timers w = [])"
proof -
  have r1: "run [Mount] world0 = Some world_mounted"
    by (simp add: reach_mounted del: step.simps)
  have f1: "timers world_mounted = [(0, POLL_MS, initial_state)]"
    "page (st world_mounted) = 1" "length (inflight world_mounted) = 3"
    "phase world_mounted = Live"
    by (simp_all add: world_mounted_def)
  note k1 = poll_interval [OF r1, THEN conjunct1]
  note c1 = poll_interval [OF r1, THEN conjunct2, THEN conjunct2, THEN conjunct2, THEN conjunct2, THEN conjunct1, rule_format, OF f1(1)]
  from k1 have a: "POLL_MS = 300000" by simp
  from c1 obtain w' where t0: "step (Tick 0) world_mounted = Some w'"
    and i0: "issued (Tick 0) world_mounted =
       GetStats # (if page (st world_mounted) = 1
                   then [GetArticles (build_params True initial_state)] else [])"
    and s0: "\<forall>t. \<exists>w''. step (Respond (length (inflight world_mounted)) (StatsOk t)) w' = Some w''
          \<and> stats (st w'') = Some t"
    and a0: "page (st world_mounted) = 1 \<longrightarrow>
          (\<forall>d. \<exists>w''. step (Respond (Suc (length (inflight world_mounted))) (ArticlesOk d)) w'
                  = Some w'' \<and> articles (st w'') = data_articles d
                \<and> totalArticles (st w'') = data_total d
                \<and> hasMore (st w'') = (length (data_articles d) = 20))"
    by blast
  from s0 obtain ws where ws: "step (Respond 3 (StatsOk sample_stats)) w' = Some ws"
    "stats (st ws) = Some sample_stats"
    unfolding f1 by blast
  from a0 f1(2) obtain wa where wa: "step (Respond 4 (ArticlesOk (page_of 7))) w' = Some wa"
    "articles (st wa) = data_articles (page_of 7)"
    unfolding f1 by (auto simp del: step.simps)
  have b: "\<exists>w'. step (Tick 0) world_mounted = Some w'
        \<and> (\<exists>w''. step (Respond 3 (StatsOk sample_stats)) w' = Some w''
              \<and> stats (st w'') = Some sample_stats)
        \<and> (\<exists>w''. step (Respond 4 (ArticlesOk (page_of 7))) w' = Some w''
              \<and> articles (st w'') = replicate 7 sample_article)"
    using t0 ws wa by (simp add: page_of_def del: step.simps)
  have i1: "issued (Tick 0) world_mounted = [GetStats, GetArticles (query_page 1)]"
    using i0 by (simp add: f1 query_initial)
  have f2: "timers world_page2_pending = [(1, POLL_MS, state_page1\<lparr>page := 2\<rparr>)]"
    "page (st world_page2_pending) = 2"
    by (simp_all add: world_page2_pending_def)
  note c2 = poll_interval [OF reach_page2_pending_from_start, THEN conjunct2, THEN conjunct2, THEN conjunct2, THEN conjunct2, THEN conjunct1, rule_format,
      OF f2(1)]
  from c2 have i2: "issued (Tick 1) world_page2_pending = [GetStats]"
    by (auto simp add: f2 simp del: step.simps)
  let ?e = "SelectHours ''6''"
  let ?w6 = "handle (upd (\<lambda>s. s\<lparr>selectedHours := ''6''\<rparr>)) world_page1"
  have p1: "phase world_page1 = Live" "st world_page1 = state_page1"
    "timers world_page1 = [(0, POLL_MS, initial_state)]"
    by (simp_all add: world_page1_def world_mounted_def)
  have s6: "step ?e world_page1 = Some ?w6"
    by (simp add: p1 hours_options_def)
  have st6: "st ?w6 = state_page1\<lparr>selectedHours := ''6'', loading := True, page := 1\<rparr>"
    by (simp add: handle_def st_rerender p1)
  note r6 = run_snoc [OF reach_page1_from_start s6]
  note same = poll_interval [OF reach_page1_from_start, THEN conjunct2, THEN conjunct2, THEN conjunct2, THEN conjunct2, THEN conjunct2, THEN conjunct2, THEN conjunct2, THEN conjunct1, rule_format,
      of ?e ?w6]
  from same s6 have t6: "timers ?w6 = timers world_page1"
    by (simp add: st6 p1 del: step.simps)
  note c6 = poll_interval [OF r6, THEN conjunct2, THEN conjunct2, THEN conjunct2, THEN conjunct2, THEN conjunct1, rule_format, OF t6 [unfolded p1(3)]]
  from c6 have i6: "issued (Tick 0) ?w6 = [GetStats, GetArticles (query_page 1)]"
    by (auto simp add: st6 query_initial simp del: step.simps)
  have c: "\<exists>w6. step ?e world_page1 = Some w6 \<and> selectedHours (st w6) = ''6''
        \<and> timers w6 = timers world_page1
        \<and> issued (Tick 0) w6 = [GetStats, GetArticles (query_page 1)]"
    using s6 t6 i6 by (simp add: st6 del: step.simps)
  let ?w = "interval_cleanup (world_mounted\<lparr>phase := Torn\<rparr>)"
  have su: "step Unmount world_mounted = Some ?w" by (simp add: f1)
  note ru = run_snoc [OF r1 su]
  note u = poll_interval [OF r1, THEN conjunct2, THEN conjunct2, THEN conjunct2, THEN conjunct2, THEN conjunct2, THEN conjunct2, THEN conjunct2, THEN conjunct2, THEN conjunct2, rule_format, OF su]
  from ru u have d: "\<exists>w. run [Mount, Unmount] world0 = Some w \<and> phase w = Torn \<and> timers w = []"
    by (simp del: step.simps run.simps)
  from r1 a f1(1) i1 b i2 c d show ?thesis
    by (simp del: step.simps run.simps)
qed

text \<open>
  C7 as stated fails in "a single interval started once after mount": the interval
  started at mount has identifier 0; after the first click on the button of
  \<^verbatim>\<open>loadMore\<close> the live interval has identifier 1, the second one that was started.
\<close>

theorem poll_interval_restarted_counterexample:
  "step Mount world0 = Some world_mounted
   \<and> run [Respond 0 (SourcesOk [sample_source]), Respond 0 (StatsOk sample_stats),
           Respond 0 (ArticlesOk (page_of 20)), ClickLoadMore] world_mounted
       = Some world_page2_pending
   \<and> map fst (timers world_mounted) = [0] \<and> next_timer world_mounted = 1
   \<and> map fst (timers world_page2_pending) = [1] \<and> next_timer world_page2_pending = 2"
proof -
  have "run ([Respond 0 (SourcesOk [sample_source]), Respond 0 (StatsOk sample_stats),
           Respond 0 (ArticlesOk (page_of 20))] @ [ClickLoadMore]) world_mounted
       = Some world_page2_pending"
    unfolding run_append using reach_page1 by (simp add: reach_page2_pending del: step.simps)
  then show ?thesis
    by (simp add: reach_mounted world_mounted_def world_page2_pending_def
        del: step.simps run.simps)
qed

text \<open>
  C6. In every world that a run of events reaches from the start, and for every event
  there: the refresh button is disabled exactly when \<^verbatim>\<open>refreshing\<close> is true, and a
  click on it is then no event; \<^verbatim>\<open>refreshing\<close> is true exactly while a promise that
  \<^verbatim>\<open>handleRefresh\<close> awaits is in flight, and at most one is. The refresh goes through
  its steps in this order, whatever other events fall in between. The click sets
  \<^verbatim>\<open>refreshing\<close> and sends the \<^verbatim>\<open>POST\<close>. When the \<^verbatim>\<open>POST\<close> resolves, the query of page 1
  is sent, as a replace-fetch, and the page is 1. When that request settles, the request
  of the stats is sent; if a page has arrived, the displayed list, the total and
  \<^verbatim>\<open>hasMore\<close> are those of the page, and if not, they are as before. When the request of
  the stats settles, the stats are stored if they have arrived, and \<^verbatim>\<open>refreshing\<close> is
  false again. It is false again also when the \<^verbatim>\<open>POST\<close> fails, and then nothing more is
  sent. Every other event leaves \<^verbatim>\<open>refreshing\<close> and the awaited step as they were.
\<close>

theorem manual_refresh_sequence:
  assumes "run es world0 = Some w" and "step e w = Some w'"
  shows "refresh_disabled (st w) = refreshing (st w)
     \<and> refreshing (st w) = (refresh_pending w \<noteq> [])
     \<and> length (refresh_pending w) \<le> 1
     \<and> (refreshing (st w) \<longrightarrow> step ClickRefresh w = None)
     \<and> (e = ClickRefresh \<longrightarrow>
          \<not> refreshing (st w) \<and> refreshing (st w') \<and> issued e w = [PostRefresh]
          \<and> refresh_pending w' = [AwaitRefresh (st w)])
     \<and> (\<forall>i r cl. e = Respond i r \<and> snd (inflight w ! i) = AwaitRefresh cl \<longrightarrow>
          refreshing (st w)
          \<and> (r = RefreshOk \<longrightarrow>
                issued e w = [GetArticles (build_params True cl)]
              \<and> map_of (build_params True cl) ''page'' = Some (Num 1)
              \<and> refresh_pending w' = [AwaitArticles True FromRefresh]
              \<and> page (st w') = 1 \<and> refreshing (st w'))
          \<and> (r \<noteq> RefreshOk \<longrightarrow>
                r = Failed \<and> issued e w = [] \<and> refresh_pending w' = []
              \<and> \<not> refreshing (st w')
              \<and> articles (st w') = articles (st w) \<and> stats (st w') = stats (st w)))
     \<and> (\<forall>i r b. e = Respond i r \<and> snd (inflight w ! i) = AwaitArticles b FromRefresh \<longrightarrow>
          b \<and> refreshing (st w) \<and> issued e w = [GetStats]
          \<and> refresh_pending w' = [AwaitStats FromRefresh] \<and> refreshing (st w')
          \<and> \<not> loading (st w')
          \<and> (\<forall>d. r = ArticlesOk d \<longrightarrow> articles (st w') = data_articles d
                \<and> totalArticles (st w') = data_total d
                \<and> hasMore (st w') = (length (data_articles d) = 20))
          \<and> (r = Failed \<longrightarrow> articles (st w') = articles (st w)
                \<and> totalArticles (st w') = totalArticles (st w)
                \<and> hasMore (st w') = hasMore (st w)))
     \<and> (\<forall>i r. e = Respond i r \<and> snd (inflight w ! i) = AwaitStats FromRefresh \<longrightarrow>
          refreshing (st w) \<and> issued e w = [] \<and> refresh_pending w' = []
          \<and> \<not> refreshing (st w')
          \<and> (\<forall>d. r = StatsOk d \<longrightarrow> stats (st w') = Some d)
          \<and> (r = Failed \<longrightarrow> stats (st w') = stats (st w)))
     \<and> (e \<noteq> ClickRefresh \<and> (\<forall>i r. e = Respond i r \<longrightarrow> \<not> refresh_step (snd (inflight w ! i)))
          \<longrightarrow> refreshing (st w') = refreshing (st w) \<and> refresh_pending w' = refresh_pending w)"
proof -
  note ok = reachable_refresh_ok [OF assms(1)]
  have a: "refresh_disabled (st w) = refreshing (st w)" by (simp add: refresh_disabled_def)
  have b: "refreshing (st w) = (refresh_pending w \<noteq> [])" "length (refresh_pending w) \<le> 1"
    using ok by (simp_all add: refresh_ok_iff)
  have c: "refreshing (st w) \<longrightarrow> step ClickRefresh w = None"
    by (simp add: refresh_disabled_def)
  have d: "e = ClickRefresh \<longrightarrow>
          \<not> refreshing (st w) \<and> refreshing (st w') \<and> issued e w = [PostRefresh]
          \<and> refresh_pending w' = [AwaitRefresh (st w)]"
  proof
    assume e: "e = ClickRefresh"
    from refresh_click [OF assms(2) [unfolded e]] b e show "\<not> refreshing (st w) \<and> refreshing (st w') \<and> issued e w = [PostRefresh]
          \<and> refresh_pending w' = [AwaitRefresh (st w)]" by simp
  qed
  have f: "e = Respond i r \<and> snd (inflight w ! i) = AwaitRefresh cl \<longrightarrow>
          refreshing (st w)
          \<and> (r = RefreshOk \<longrightarrow>
                issued e w = [GetArticles (build_params True cl)]
              \<and> map_of (build_params True cl) ''page'' = Some (Num 1)
              \<and> refresh_pending w' = [AwaitArticles True FromRefresh]
              \<and> page (st w') = 1 \<and> refreshing (st w'))
          \<and> (r \<noteq> RefreshOk \<longrightarrow>
                r = Failed \<and> issued e w = [] \<and> refresh_pending w' = []
              \<and> \<not> refreshing (st w')
              \<and> articles (st w') = articles (st w) \<and> stats (st w') = stats (st w))" for i r cl
    using refresh_posted [OF _ _ ok, of i r w' cl] assms(2) by (auto simp del: step.simps)
  have g: "e = Respond i r \<and> snd (inflight w ! i) = AwaitArticles b FromRefresh \<longrightarrow>
          b \<and> refreshing (st w) \<and> issued e w = [GetStats]
          \<and> refresh_pending w' = [AwaitStats FromRefresh] \<and> refreshing (st w')
          \<and> \<not> loading (st w')
          \<and> (\<forall>d. r = ArticlesOk d \<longrightarrow> articles (st w') = data_articles d
                \<and> totalArticles (st w') = data_total d
                \<and> hasMore (st w') = (length (data_articles d) = 20))
          \<and> (r = Failed \<longrightarrow> articles (st w') = articles (st w)
                \<and> totalArticles (st w') = totalArticles (st w)
                \<and> hasMore (st w') = hasMore (st w))" for i r b
    using refresh_articles_settled [OF _ _ ok, of i r w' b] assms(2)
    by (auto simp del: step.simps)
  have h: "e = Respond i r \<and> snd (inflight w ! i) = AwaitStats FromRefresh \<longrightarrow>
          refreshing (st w) \<and> issued e w = [] \<and> refresh_pending w' = []
          \<and> \<not> refreshing (st w')
          \<and> (\<forall>d. r = StatsOk d \<longrightarrow> stats (st w') = Some d)
          \<and> (r = Failed \<longrightarrow> stats (st w') = stats (st w))" for i r
    using refresh_stats_settled [OF _ _ ok, of i r w'] assms(2)
    by (auto simp del: step.simps)
  have k: "e \<noteq> ClickRefresh \<and> (\<forall>i r. e = Respond i r \<longrightarrow> \<not> refresh_step (snd (inflight w ! i)))
          \<longrightarrow> refreshing (st w') = refreshing (st w) \<and> refresh_pending w' = refresh_pending w"
    using refresh_other [OF assms(2)] by blast
  from a b c d f g h k show ?thesis by blast
qed

theorem manual_refresh_sequence_witness:
  "run [Mount, Respond 0 (SourcesOk [sample_source]), Respond 0 (StatsOk sample_stats),
        Respond 0 (ArticlesOk (page_of 20))] world0 = Some world_page1
   \<and> \<not> refreshing (st world_page1) \<and> length (articles (st world_page1)) = 20
   \<and> issued ClickRefresh world_page1 = [PostRefresh]
   \<and> (\<exists>w1 w2 w3 w4 w5.
         step ClickRefresh world_page1 = Some w1 \<and> refreshing (st w1)
       \<and> step (TypeSearch ''rust'') w1 = Some w5 \<and> refreshing (st w5)
       \<and> step (Respond 0 RefreshOk) w1 = Some w2 \<and> refreshing (st w2)
       \<and> issued (Respond 0 RefreshOk) w1 = [GetArticles (query_page 1)]
       \<and> step (Respond 0 (ArticlesOk (page_of 7))) w2 = Some w3 \<and> refreshing (st w3)
       \<and> issued (Respond 0 (ArticlesOk (page_of 7))) w2 = [GetStats]
       \<and> articles (st w3) = replicate 7 sample_article \<and> \<not> hasMore (st w3)
       \<and> step (Respond 0 (StatsOk \<lparr>total_articles = 58, recent_articles_24h = 21\<rparr>)) w3 = Some w4
       \<and> \<not> refreshing (st w4)
       \<and> stats (st w4) = Some \<lparr>total_articles = 58, recent_articles_24h = 21\<rparr>)"
proof -
  let ?es = "[Mount, Respond 0 (SourcesOk [sample_source]), Respond 0 (StatsOk sample_stats),
        Respond 0 (ArticlesOk (page_of 20))]"
  let ?t = "\<lparr>total_articles = 58, recent_articles_24h = 21\<rparr>"
  note r0 = reach_page1_from_start
  have h: "phase world_page1 = Live" "\<not> refreshing (st world_page1)"
    and s: "st world_page1 = state_page1" "inflight world_page1 = []"
    by (simp_all add: world_page1_def world_mounted_def)
  from manual_refresh_uninterrupted [OF h, of "ArticlesOk (page_of 7)" "page_of 7" "StatsOk ?t" ?t]
  obtain w1 w2 w3 w4 where s1: "step ClickRefresh world_page1 = Some w1"
    and k1: "snd (inflight w1 ! 0) = AwaitRefresh state_page1"
    and s2: "step (Respond 0 RefreshOk) w1 = Some w2"
    and k2: "snd (inflight w2 ! 0) = AwaitArticles True FromRefresh"
    and s3: "step (Respond 0 (ArticlesOk (page_of 7))) w2 = Some w3"
    and k3: "snd (inflight w3 ! 0) = AwaitStats FromRefresh"
    and s4: "step (Respond 0 (StatsOk ?t)) w3 = Some w4"
    unfolding s by auto
  note r1 = run_snoc [OF r0 s1]
  note r2 = run_snoc [OF r1 s2]
  note r3 = run_snoc [OF r2 s3]
  from s2 have "phase w1 = Live" by (rule step_Respond_world)
  then have s5: "step (TypeSearch ''rust'') w1
      = Some (handle (upd (\<lambda>s. s\<lparr>searchTerm := ''rust''\<rparr>)) w1)" by simp
  from manual_refresh_sequence [OF r0 s1]
  have t0: "refreshing (st w1)" "issued ClickRefresh world_page1 = [PostRefresh]" by simp_all
  from manual_refresh_sequence [OF r1 s5] t0
  have t5: "refreshing (st (handle (upd (\<lambda>s. s\<lparr>searchTerm := ''rust''\<rparr>)) w1))" by simp
  note p1 = manual_refresh_sequence [OF r1 s2, THEN conjunct2, THEN conjunct2, THEN conjunct2, THEN conjunct2, THEN conjunct2, THEN conjunct1, rule_format,
      of 0 RefreshOk state_page1]
  from p1 k1
  have t1: "refreshing (st w2)"
    "issued (Respond 0 RefreshOk) w1 = [GetArticles (build_params True state_page1)]"
    by (simp_all del: step.simps)
  note p2 = manual_refresh_sequence [OF r2 s3, THEN conjunct2, THEN conjunct2, THEN conjunct2, THEN conjunct2, THEN conjunct2, THEN conjunct2, THEN conjunct1, rule_format,
      of 0 "ArticlesOk (page_of 7)" True]
  from p2 k2
  have t2: "refreshing (st w3)" "issued (Respond 0 (ArticlesOk (page_of 7))) w2 = [GetStats]"
    "articles (st w3) = data_articles (page_of 7)"
    "hasMore (st w3) = (length (data_articles (page_of 7)) = 20)"
    by (simp_all del: step.simps)
  note p3 = manual_refresh_sequence [OF r3 s4, THEN conjunct2, THEN conjunct2, THEN conjunct2, THEN conjunct2, THEN conjunct2, THEN conjunct2, THEN conjunct2, THEN conjunct1, rule_format,
      of 0 "StatsOk ?t"]
  from p3 k3
  have t3: "\<not> refreshing (st w4)" "stats (st w4) = Some ?t"
    by (simp_all del: step.simps)
  from r0 h s s1 s2 s3 s4 s5 t0 t1 t2 t3 t5 show ?thesis
    by (simp add: query_page1 page_of_def del: step.simps run.simps)
qed

end
